theory Spec2Isabelle
  imports Main
begin

section \<open>JavaScript values the service inspects\<close>

text \<open>
  A string is truthy unless it is empty; \<open>null\<close> and \<open>undefined\<close> are \<open>None\<close>.
  \<open>String.prototype.includes\<close> is a substring test.
\<close>

definition truthy :: "string \<Rightarrow> bool" where
  "truthy s = (s \<noteq> [])"

definition truthy_opt :: "string option \<Rightarrow> bool" where
  "truthy_opt r = (case r of None \<Rightarrow> False | Some s \<Rightarrow> truthy s)"

fun str_includes :: "string \<Rightarrow> string \<Rightarrow> bool" where
  "str_includes [] sub = (sub = [])"
| "str_includes (c # cs) sub = (take (length sub) (c # cs) = sub \<or> str_includes cs sub)"

function nat_to_string :: "nat \<Rightarrow> string" where
  "nat_to_string n =
     (if n < 10 then [''0123456789'' ! n]
      else nat_to_string (n div 10) @ [''0123456789'' ! (n mod 10)])"
  by pat_completeness auto
termination
  by (relation "measure (\<lambda>n. n)") auto

declare nat_to_string.simps [simp del]

text \<open>
  What a \<open>catch\<close> clause may receive. An error object carries a \<open>code\<close> and a
  \<open>message\<close> property, each of which may be missing or hold a value of another type;
  \<open>MessageOther r\<close> is a non-string message whose rendering in a template literal is \<open>r\<close>.
  \<open>NonObject\<close> is a thrown primitive.
\<close>

datatype js_code = CodeAbsent | CodeNumber int | CodeOther

datatype js_message = MessageAbsent | MessageString string | MessageOther string

datatype thrown = NonObject | ErrorObject (error_code: js_code) (error_message: js_message)

fun message_text :: "thrown \<Rightarrow> string" where
  "message_text NonObject = ''undefined''"
| "message_text (ErrorObject c MessageAbsent) = ''undefined''"
| "message_text (ErrorObject c (MessageString s)) = s"
| "message_text (ErrorObject c (MessageOther r)) = r"

definition new_Error :: "string \<Rightarrow> thrown" where
  "new_Error msg = ErrorObject CodeAbsent (MessageString msg)"

fun isRateLimitError :: "thrown \<Rightarrow> bool" where
  "isRateLimitError NonObject = False"
| "isRateLimitError (ErrorObject c m) =
     (c \<noteq> CodeAbsent \<and> m \<noteq> MessageAbsent \<and>
      (c = CodeNumber 429 \<or>
       (case m of MessageString s \<Rightarrow> str_includes s ''quota'' | _ \<Rightarrow> False)))"

section \<open>Data model\<close>

record permission =
  permission_id :: string
  permission_role :: string

text \<open>
  The \<open>permissions\<close> array of a folder first holds the provider's embedded permission
  objects and, after ingestion, the internal ids that replaced them.
\<close>

datatype permission_entry = Embedded permission | Linked string

record folder =
  folder_id :: string
  name :: string
  parents :: "string list option"
  folder_driveId :: "string option"
  modifiedTime :: string
  permissions :: "permission_entry list option"
  internal_id :: "string option"
  internal_parent_folder_id :: "string option"

record connection =
  id_connection :: string
  id_linked_user :: string
  provider_slug :: string
  vertical :: string
  access_token :: string

record fs_folder =
  id_fs_folder :: string
  remote_id :: string
  folder_connection :: string
  remote_modified_at :: "nat option"

record fs_permission =
  id_fs_permission :: string
  permission_remote_id :: string
  permission_connection :: string

record database =
  connections :: "connection list"
  fs_folders :: "fs_folder list"
  fs_permissions :: "fs_permission list"

datatype log_level = LogInfo | LogWarn | LogError

text \<open>
  Everything the service can change or that an observer can count: the persisted tables,
  the number of requests issued to the provider, the delays awaited (in ms, oldest first),
  the number of \<open>uuidv4()\<close> calls and the logger's output (oldest first).
\<close>

record world =
  db :: database
  api_calls :: nat
  slept :: "nat list"
  uuid_calls :: nat
  logs :: "(log_level \<times> string) list"

text \<open>
  An asynchronous computation either settles, with a value or a thrown error and the world
  it leaves behind, or never settles (\<open>None\<close>).
\<close>

type_synonym 'a outcome = "(thrown + 'a) \<times> world"

type_synonym 'a async = "'a outcome option"

definition delay :: "nat \<Rightarrow> world \<Rightarrow> world" where
  "delay ms w = w\<lparr>slept := slept w @ [ms]\<rparr>"

definition logger :: "log_level \<Rightarrow> string \<Rightarrow> world \<Rightarrow> world" where
  "logger lvl msg w = w\<lparr>logs := logs w @ [(lvl, msg)]\<rparr>"

text \<open>One request to the provider: the answer \<open>r\<close> arrives and the request is counted.\<close>

definition remote_call :: "(thrown + 'a) \<Rightarrow> world \<Rightarrow> 'a async" where
  "remote_call r w = Some (r, w\<lparr>api_calls := Suc (api_calls w)\<rparr>)"

text \<open>
  A simulated provider whose answer depends on how many requests were issued before:
  \<open>outcomes k\<close> is the answer to request number \<open>k\<close> (counted from 0).
\<close>

definition simulated_provider :: "(nat \<Rightarrow> thrown + 'a) \<Rightarrow> world \<Rightarrow> 'a async" where
  "simulated_provider outcomes w = remote_call (outcomes (api_calls w)) w"

subsection \<open>The collaborators of the service\<close>

record list_request =
  request_q :: string
  request_pageToken :: "string option"
  request_driveId :: "string option"

record list_response =
  files :: "folder list option"
  nextPageToken :: "string option"

record drives_response =
  drives :: "string list option"
  drives_nextPageToken :: "string option"

text \<open>
  The Google Drive client, \<open>uuidv4\<close>, \<open>Date.toISOString\<close> and the ingestion service are
  not part of the service; they are parameters. The drive holds finitely many files:
  \<open>driveFiles\<close> lists what \<open>drive.files.get\<close> answers for each known file id, any other
  id is answered with a 404 error. \<open>files_list\<close> and \<open>drives_list\<close> answer the listing
  requests, \<open>uuid k\<close> is the result of the \<open>k\<close>-th call of \<open>uuidv4()\<close>, and \<open>ingest\<close> is
  \<open>IngestDataService.ingestData\<close> for permissions, which may write to the store.
\<close>

record env =
  driveFiles :: "(string \<times> (thrown + folder option)) list"
  files_list :: "list_request \<Rightarrow> thrown + list_response"
  drives_list :: "string option \<Rightarrow> thrown + drives_response"
  uuid :: "nat \<Rightarrow> string"
  toISOString :: "nat \<Rightarrow> string"
  ingest :: "permission_entry list \<Rightarrow> string \<Rightarrow> database \<Rightarrow>
             (thrown + fs_permission list) \<times> database"

definition drive_files_get :: "env \<Rightarrow> string \<Rightarrow> thrown + folder option" where
  "drive_files_get env fileId =
     (case map_of (driveFiles env) fileId of
        Some r \<Rightarrow> r
      | None \<Rightarrow> Inl (ErrorObject (CodeNumber 404) (MessageString (''File not found: '' @ fileId))))"

definition uuidv4 :: "env \<Rightarrow> world \<Rightarrow> string \<times> world" where
  "uuidv4 env w = (uuid env (uuid_calls w), w\<lparr>uuid_calls := Suc (uuid_calls w)\<rparr>)"

definition ingestData :: "env \<Rightarrow> permission_entry list \<Rightarrow> string \<Rightarrow> world \<Rightarrow> fs_permission list async" where
  "ingestData env records connectionId w =
     (case ingest env records connectionId (db w) of (r, d) \<Rightarrow> Some (r, w\<lparr>db := d\<rparr>))"

section \<open>The rate-limited executor\<close>

definition RATE_LIMIT_DELAY :: nat where
  "RATE_LIMIT_DELAY = 100"

definition MAX_API_RETRIES :: nat where
  "MAX_API_RETRIES = 3"

definition BASE_BACKOFF_MS :: nat where
  "BASE_BACKOFF_MS = 1000"

function executeWithRetry :: "(world \<Rightarrow> 'a async) \<Rightarrow> nat \<Rightarrow> world \<Rightarrow> 'a async" where
  "executeWithRetry operation retryCount w =
     (case operation (delay RATE_LIMIT_DELAY w) of
        None \<Rightarrow> None
      | Some (Inr v, w') \<Rightarrow> Some (Inr v, w')
      | Some (Inl error, w') \<Rightarrow>
          if \<not> isRateLimitError error then Some (Inl error, w')
          else if retryCount \<ge> MAX_API_RETRIES then
            Some (Inl (new_Error (''Failed after '' @ nat_to_string MAX_API_RETRIES @
                    '' retries. Last error: '' @ message_text error)), w')
          else executeWithRetry operation (retryCount + 1)
                 (delay (BASE_BACKOFF_MS * 2 ^ retryCount) w'))"
  by pat_completeness auto
termination
  by (relation "measure (\<lambda>(operation, retryCount, w). MAX_API_RETRIES - retryCount)") auto

declare executeWithRetry.simps [simp del]

section \<open>Paginated fetching\<close>

text \<open>
  Each \<open>do \<dots> while (pageToken)\<close> loop is one recursive function: one call is one
  iteration. A provider that keeps returning page tokens makes the loop run forever, which
  is the value \<open>None\<close>.
\<close>

definition push_files :: "folder list \<Rightarrow> folder list option \<Rightarrow> folder list" where
  "push_files folders fs =
     (case fs of None \<Rightarrow> folders | Some xs \<Rightarrow> if xs \<noteq> [] then folders @ xs else folders)"

partial_function (option) getModifiedFolders_pages ::
  "env \<Rightarrow> string \<Rightarrow> string option \<Rightarrow> folder list \<Rightarrow> world \<Rightarrow> folder list async" where
  "getModifiedFolders_pages env query pageToken folders w =
     (case remote_call (files_list env
               \<lparr>request_q = query, request_pageToken = pageToken, request_driveId = None\<rparr>) w of
        None \<Rightarrow> None
      | Some (Inl error, w') \<Rightarrow> Some (Inl error, w')
      | Some (Inr response, w') \<Rightarrow>
          if truthy_opt (nextPageToken response)
          then getModifiedFolders_pages env query (nextPageToken response)
                 (push_files folders (files response)) w'
          else Some (Inr (push_files folders (files response)), w'))"

definition getModifiedFolders :: "env \<Rightarrow> nat \<Rightarrow> world \<Rightarrow> folder list async" where
  "getModifiedFolders env lastSyncTime w =
     getModifiedFolders_pages env
       (''modifiedTime >= '' @ [CHR 0x27] @ toISOString env lastSyncTime @ [CHR 0x27]) None [] w"

definition buildQuery :: "string option \<Rightarrow> string \<Rightarrow> string" where
  "buildQuery parentId driveId =
     (let baseQuery = ''mimeType='' @ [CHR 0x27] @ ''application/vnd.google-apps.folder'' @ [CHR 0x27]
      in case parentId of
           Some p \<Rightarrow>
             if truthy p then baseQuery @ '' and '' @ [CHR 0x27] @ p @ [CHR 0x27] @ '' in parents''
             else baseQuery @ '' and '' @ [CHR 0x27] @ driveId @ [CHR 0x27] @ '' in parents''
         | None \<Rightarrow> baseQuery @ '' and '' @ [CHR 0x27] @ driveId @ [CHR 0x27] @ '' in parents'')"

partial_function (option) fetchFoldersForParent_pages ::
  "env \<Rightarrow> string option \<Rightarrow> string \<Rightarrow> string option \<Rightarrow> folder list \<Rightarrow> world \<Rightarrow> folder list async" where
  "fetchFoldersForParent_pages env parentId driveId pageToken folders w =
     (case executeWithRetry
             (remote_call (files_list env
                \<lparr>request_q = buildQuery parentId driveId, request_pageToken = pageToken,
                 request_driveId = (if driveId \<noteq> ''root'' then Some driveId else None)\<rparr>)) 0 w of
        None \<Rightarrow> None
      | Some (Inl error, w') \<Rightarrow> Some (Inl error, w')
      | Some (Inr response, w') \<Rightarrow>
          if truthy_opt (nextPageToken response)
          then fetchFoldersForParent_pages env parentId driveId (nextPageToken response)
                 (push_files folders (files response)) w'
          else Some (Inr (push_files folders (files response)), w'))"

definition default_driveId :: "string \<Rightarrow> folder \<Rightarrow> folder" where
  "default_driveId rootDriveId folder =
     folder\<lparr>folder_driveId :=
        (if truthy_opt (folder_driveId folder) then folder_driveId folder else Some rootDriveId)\<rparr>"

definition fetchFoldersForParent ::
  "env \<Rightarrow> string \<Rightarrow> string option \<Rightarrow> string \<Rightarrow> world \<Rightarrow> folder list async" where
  "fetchFoldersForParent env rootDriveId parentId driveId w =
     (case fetchFoldersForParent_pages env parentId driveId None [] w of
        None \<Rightarrow> None
      | Some (Inl error, w') \<Rightarrow>
          Some (Inl (new_Error (''Error fetching Google Drive folders: '' @ message_text error)), w')
      | Some (Inr folders, w') \<Rightarrow> Some (Inr (map (default_driveId rootDriveId) folders), w'))"

definition data_id :: "thrown + folder option \<Rightarrow> thrown + string" where
  "data_id r =
     (case r of
        Inl error \<Rightarrow> Inl error
      | Inr None \<Rightarrow> Inl (new_Error (''Cannot read properties of undefined (reading '' @ [CHR 0x27] @ ''id'' @ [CHR 0x27] @ '')''))
      | Inr (Some f) \<Rightarrow> Inr (folder_id f))"

partial_function (option) fetchDriveIds_pages ::
  "env \<Rightarrow> string option \<Rightarrow> string list \<Rightarrow> world \<Rightarrow> string list async" where
  "fetchDriveIds_pages env pageToken driveIds w =
     (case remote_call (drives_list env pageToken) w of
        None \<Rightarrow> None
      | Some (Inl error, w') \<Rightarrow> Some (Inl error, w')
      | Some (Inr response, w') \<Rightarrow>
          (let driveIds' = (case drives response of None \<Rightarrow> driveIds | Some ids \<Rightarrow> driveIds @ ids)
           in if truthy_opt (drives_nextPageToken response)
              then fetchDriveIds_pages env (drives_nextPageToken response) driveIds' w'
              else Some (Inr driveIds', w')))"

definition fetchDriveIds :: "env \<Rightarrow> world \<Rightarrow> string list async" where
  "fetchDriveIds env w =
     (case fetchDriveIds_pages env None [] w of
        None \<Rightarrow> None
      | Some (Inl error, w') \<Rightarrow> Some (Inl error, w')
      | Some (Inr driveIds, w') \<Rightarrow>
          (case remote_call (data_id (drive_files_get env ''root'')) w' of
             None \<Rightarrow> None
           | Some (Inl error, w'') \<Rightarrow> Some (Inl error, w'')
           | Some (Inr rootId, w'') \<Rightarrow> Some (Inr (driveIds @ [rootId]), w'')))"

section \<open>Hierarchy resolution\<close>

text \<open>
  What the resolver is given for one run: the collaborators, the ids of the drives and
  the connection.
\<close>

record resolver_ctx =
  ctx_env :: env
  ctx_driveIds :: "string list"
  ctx_connectionId :: string

text \<open>
  One ancestor walk of the fallback (\<open>getInternalParentRecursive\<close> started for one pending
  folder) is a task. \<open>Walk folder visitedIds\<close> is about to run the function's body for
  \<open>folder\<close>; \<open>Resolved r\<close> has returned \<open>r\<close> and waits to record it; \<open>Hung\<close> awaits a
  request that never settles.
\<close>

datatype task = Walk folder "string list" | Resolved "string option" | Finished | Hung

text \<open>
  The mutable objects of \<open>processFoldersWithParents\<close>, which it shares with
  \<open>handleUnresolvedFolders\<close>: the map \<open>folderIdToInternalIdMap\<close> (there \<open>idCache\<close>),
  \<open>parentLookupCache\<close>, the array \<open>foldersToSync\<close> (there \<open>output\<close>), the walks in flight,
  and the world.
\<close>

record resolver_state =
  folderIdToInternalIdMap :: "string \<rightharpoonup> string"
  parentLookupCache :: "string \<rightharpoonup> string option"
  foldersToSync :: "folder list"
  tasks :: "(folder \<times> task) list"
  rworld :: world

text \<open>\<open>folder.parents?.[0] || 'root'\<close>\<close>

definition remote_parent_id :: "folder \<Rightarrow> string" where
  "remote_parent_id folder =
     (case parents folder of
        Some (p # ps) \<Rightarrow> if truthy p then p else ''root''
      | _ \<Rightarrow> ''root'')"

definition findFirst_folder :: "string \<Rightarrow> string \<Rightarrow> database \<Rightarrow> fs_folder option" where
  "findFirst_folder remoteId connectionId d =
     find (\<lambda>r. remote_id r = remoteId \<and> folder_connection r = connectionId) (fs_folders d)"

definition resolveParentId ::
  "string \<Rightarrow> (string \<rightharpoonup> string) \<Rightarrow> string list \<Rightarrow> string \<Rightarrow> (string \<rightharpoonup> string option) \<Rightarrow>
   database \<Rightarrow> string option \<times> (string \<rightharpoonup> string option)" where
  "resolveParentId parentId idMap driveIds connectionId cache d =
     (case idMap parentId of
        Some v \<Rightarrow> (Some v, cache)
      | None \<Rightarrow>
          if parentId \<in> set driveIds \<or> parentId = ''root'' then (Some ''root'', cache)
          else (case cache parentId of
                  Some r \<Rightarrow> (r, cache)
                | None \<Rightarrow>
                    (let result =
                       (case findFirst_folder parentId connectionId d of
                          Some parent \<Rightarrow>
                            if truthy (id_fs_folder parent) then Some (id_fs_folder parent) else None
                        | None \<Rightarrow> None)
                     in (result, cache(parentId \<mapsto> result)))))"

definition getIntenalIdForFolder :: "env \<Rightarrow> string \<Rightarrow> string \<Rightarrow> world \<Rightarrow> string \<times> world" where
  "getIntenalIdForFolder env folderId connectionId w =
     (case findFirst_folder folderId connectionId (db w) of
        Some folder \<Rightarrow> if truthy (id_fs_folder folder) then (id_fs_folder folder, w) else uuidv4 env w
      | None \<Rightarrow> uuidv4 env w)"

definition createFolderWithInternalIds :: "folder \<Rightarrow> string \<Rightarrow> string \<Rightarrow> folder" where
  "createFolderWithInternalIds folder internalParentId internalId =
     folder\<lparr>internal_parent_folder_id :=
              (if internalParentId = ''root'' then None else Some internalParentId),
            internal_id := Some internalId\<rparr>"

definition isStuckInLoop :: "folder list \<Rightarrow> folder list \<Rightarrow> bool" where
  "isStuckInLoop pending remaining = (length pending = length remaining)"

subsection \<open>The fallback: ancestor walks\<close>

text \<open>
  One call of \<open>getInternalParentRecursive\<close>, up to its recursive call: the result is either
  the value returned or the arguments of the recursive call. \<open>remote_folders\<close> is the array
  from which the map of that name was built; a later entry for an id replaces an earlier one.
\<close>

definition getInternalParentRecursive ::
  "resolver_ctx \<Rightarrow> folder list \<Rightarrow> folder \<Rightarrow> string list \<Rightarrow> resolver_state \<Rightarrow> task \<times> resolver_state" where
  "getInternalParentRecursive ctx remote_folders folder visitedIds st =
     (let parentId = remote_parent_id folder in
      if parentId \<in> set visitedIds then
        (Resolved None,
         st\<lparr>rworld := logger LogWarn
                (''Circular reference detected for folder '' @ folder_id folder) (rworld st)\<rparr>)
      else
        (case resolveParentId parentId (folderIdToInternalIdMap st) (ctx_driveIds ctx)
                (ctx_connectionId ctx) (parentLookupCache st) (db (rworld st)) of
           (internal_parent_id, cache) \<Rightarrow>
             if truthy_opt internal_parent_id
             then (Resolved internal_parent_id, st\<lparr>parentLookupCache := cache\<rparr>)
             else
               (case find (\<lambda>f. folder_id f = parentId) (rev remote_folders) of
                  Some parentFolder \<Rightarrow>
                    (Walk parentFolder (parentId # visitedIds), st\<lparr>parentLookupCache := cache\<rparr>)
                | None \<Rightarrow>
                    (case executeWithRetry
                            (remote_call (drive_files_get (ctx_env ctx) parentId)) 0 (rworld st) of
                       None \<Rightarrow> (Hung, st\<lparr>parentLookupCache := cache\<rparr>)
                     | Some (Inl error, w) \<Rightarrow>
                         (Resolved None,
                          st\<lparr>parentLookupCache := cache,
                             rworld := logger LogError
                               (''Failed to resolve parent for folder '' @ folder_id folder) w\<rparr>)
                     | Some (Inr None, w) \<Rightarrow>
                         (Resolved None, st\<lparr>parentLookupCache := cache, rworld := w\<rparr>)
                     | Some (Inr (Some parentFolder), w) \<Rightarrow>
                         (Walk parentFolder (parentId # visitedIds),
                          st\<lparr>parentLookupCache := cache, rworld := w\<rparr>)))))"

text \<open>
  The rest of the callback of \<open>pending.map\<close>, once the walk of \<open>folder\<close> has returned
  \<open>internal_parent_id\<close>.
\<close>

definition record_resolved :: "resolver_ctx \<Rightarrow> folder \<Rightarrow> string option \<Rightarrow> resolver_state \<Rightarrow> resolver_state" where
  "record_resolved ctx folder internal_parent_id st =
     (case uuidv4 (ctx_env ctx) (rworld st) of
        (folder_internal_id, w) \<Rightarrow>
          st\<lparr>folderIdToInternalIdMap := (folderIdToInternalIdMap st)(folder_id folder \<mapsto> folder_internal_id),
             foldersToSync := foldersToSync st @
               [folder\<lparr>internal_parent_folder_id := internal_parent_id,
                       internal_id := Some folder_internal_id\<rparr>],
             rworld := w\<rparr>)"

text \<open>
  The walks run concurrently (\<open>Promise.all\<close>), so an execution is an interleaving of
  steps, each taken by one task: \<open>step_task i\<close> lets task \<open>i\<close> run one call of
  \<open>getInternalParentRecursive\<close>, or record its result when the walk has returned. A call
  is taken as one step although it awaits the store and the drive: it reads the shared maps
  before its first \<open>await\<close>, and what it writes afterwards is the entry of
  \<open>parentLookupCache\<close> for its parent id, whose value is determined by the store, which no
  walk changes. Only the order of the log lines, delays and requests of different walks is
  coarser than in an execution.
\<close>

definition step_task :: "resolver_ctx \<Rightarrow> folder list \<Rightarrow> nat \<Rightarrow> resolver_state \<Rightarrow> resolver_state" where
  "step_task ctx remote_folders i st =
     (if i < length (tasks st) then
        (case tasks st ! i of
           (folder, Walk current visitedIds) \<Rightarrow>
             (case getInternalParentRecursive ctx remote_folders current visitedIds st of
                (t, st') \<Rightarrow> st'\<lparr>tasks := (tasks st')[i := (folder, t)]\<rparr>)
         | (folder, Resolved r) \<Rightarrow>
             (let st' = record_resolved ctx folder r st
              in st'\<lparr>tasks := (tasks st')[i := (folder, Finished)]\<rparr>)
         | (folder, Finished) \<Rightarrow> st
         | (folder, Hung) \<Rightarrow> st)
      else st)"

fun active :: "task \<Rightarrow> bool" where
  "active (Walk folder visitedIds) = True"
| "active (Resolved r) = True"
| "active Finished = False"
| "active Hung = False"

fun next_active :: "(folder \<times> task) list \<Rightarrow> nat option" where
  "next_active [] = None"
| "next_active (ft # rest) =
     (if active (snd ft) then Some 0 else map_option Suc (next_active rest))"

text \<open>
  Every walk ends: a call either returns or moves on to a file that the drive or
  \<open>remote_folders\<close> holds and that the walk has not visited before. \<open>work\<close> bounds the
  steps the tasks can still take.
\<close>

definition fetchable :: "resolver_ctx \<Rightarrow> folder list \<Rightarrow> string set" where
  "fetchable ctx remote_folders =
     fst ` set (driveFiles (ctx_env ctx)) \<union> folder_id ` set remote_folders"

fun task_work :: "string set \<Rightarrow> task \<Rightarrow> nat" where
  "task_work F (Walk folder visitedIds) = 2 + card (F - set visitedIds)"
| "task_work F (Resolved r) = 1"
| "task_work F Finished = 0"
| "task_work F Hung = 0"

definition work :: "resolver_ctx \<Rightarrow> folder list \<Rightarrow> resolver_state \<Rightarrow> nat" where
  "work ctx remote_folders st =
     sum_list (map (\<lambda>ft. task_work (fetchable ctx remote_folders) (snd ft)) (tasks st))"


lemma remote_call_step:
  "remote_call r w = Some (r, w\<lparr>api_calls := Suc (api_calls w)\<rparr>)"
  by (simp add: remote_call_def)

lemma executeWithRetry_remote_call_settles:
  assumes "\<forall>e. r = Inl e \<longrightarrow> \<not> isRateLimitError e"
  shows "executeWithRetry (remote_call r) n w =
         Some (r, w\<lparr>api_calls := Suc (api_calls w), slept := slept w @ [RATE_LIMIT_DELAY]\<rparr>)"
  using assms
  by (subst executeWithRetry.simps) (simp add: remote_call_step delay_def split: sum.splits)

lemma executeWithRetry_remote_call_retry:
  assumes "isRateLimitError e" "n < MAX_API_RETRIES"
  shows "executeWithRetry (remote_call (Inl e)) n w =
         executeWithRetry (remote_call (Inl e)) (Suc n)
           (w\<lparr>api_calls := Suc (api_calls w),
              slept := slept w @ [RATE_LIMIT_DELAY, BASE_BACKOFF_MS * 2 ^ n]\<rparr>)"
  using assms
  by (subst executeWithRetry.simps) (simp add: remote_call_step delay_def)

lemma executeWithRetry_remote_call_ceiling:
  assumes "isRateLimitError e" "MAX_API_RETRIES \<le> n"
  shows "executeWithRetry (remote_call (Inl e)) n w =
         Some (Inl (new_Error (''Failed after '' @ nat_to_string MAX_API_RETRIES @
                    '' retries. Last error: '' @ message_text e)),
               w\<lparr>api_calls := Suc (api_calls w), slept := slept w @ [RATE_LIMIT_DELAY]\<rparr>)"
  using assms
  by (subst executeWithRetry.simps) (simp add: remote_call_step delay_def)

lemma executeWithRetry_remote_call_cases:
  "\<exists>w'. executeWithRetry (remote_call r) n w = Some (r, w') \<or>
        (\<exists>e. r = Inl e \<and> isRateLimitError e \<and>
           executeWithRetry (remote_call r) n w =
           Some (Inl (new_Error (''Failed after '' @ nat_to_string MAX_API_RETRIES @
                    '' retries. Last error: '' @ message_text e)), w'))"
proof (cases "\<exists>e. r = Inl e \<and> isRateLimitError e")
  case False
  then show ?thesis
    using executeWithRetry_remote_call_settles [of r n w] by auto
next
  case True
  then obtain e where e: "r = Inl e" "isRateLimitError e" by blast
  have "\<exists>w'. executeWithRetry (remote_call (Inl e :: thrown + 'a)) n w =
           Some (Inl (new_Error (''Failed after '' @ nat_to_string MAX_API_RETRIES @
                    '' retries. Last error: '' @ message_text e)), w')"
  proof (induction "MAX_API_RETRIES - n" arbitrary: n w)
    case 0
    then show ?case
      using e(2) by (simp add: executeWithRetry_remote_call_ceiling)
  next
    case (Suc k)
    then have "n < MAX_API_RETRIES" "k = MAX_API_RETRIES - Suc n"
      by simp_all
    then show ?case
      using e(2) Suc.hyps(1) [of "Suc n"] by (simp add: executeWithRetry_remote_call_retry)
  qed
  with e show ?thesis by auto
qed

lemma executeWithRetry_remote_call_Inr:
  "executeWithRetry (remote_call r) n w = Some (Inr v, w') \<Longrightarrow> r = Inr v"
  using executeWithRetry_remote_call_cases [of r n w] by auto

lemma executeWithRetry_remote_call_Some:
  "executeWithRetry (remote_call r) n w \<noteq> None"
  using executeWithRetry_remote_call_cases [of r n w] by auto

lemma next_active_Some:
  "next_active ts = Some i \<Longrightarrow> i < length ts \<and> active (snd (ts ! i))"
proof (induction ts arbitrary: i)
  case Nil
  then show ?case by simp
next
  case (Cons ft ts)
  then show ?case by (cases "active (snd ft)") auto
qed

lemma find_SomeD: "find P xs = Some g \<Longrightarrow> P g \<and> g \<in> set xs"
  by (induction xs) (auto split: if_splits)

lemma find_rev_folder_id:
  "find (\<lambda>f. folder_id f = x) (rev fs) = Some g \<Longrightarrow> x \<in> folder_id ` set fs"
  by (auto dest: find_SomeD)

lemma drive_files_get_known:
  "drive_files_get e x = Inr v \<Longrightarrow> x \<in> fst ` set (driveFiles e)"
  by (auto simp: drive_files_get_def split: option.splits dest: map_of_SomeD intro: rev_image_eqI)

lemma record_resolved_tasks: "tasks (record_resolved ctx folder r st) = tasks st"
  by (simp add: record_resolved_def split: prod.splits)

lemma sum_list_map_update_less:
  fixes f :: "'a \<Rightarrow> nat"
  assumes "i < length xs" "f y < f (xs ! i)"
  shows "sum_list (map f (xs[i := y])) < sum_list (map f xs)"
  using assms
proof (induction xs arbitrary: i)
  case Nil
  then show ?case by simp
next
  case (Cons x xs)
  then show ?case by (cases i) auto
qed

lemma getInternalParentRecursive_tasks:
  "getInternalParentRecursive ctx remote_folders folder visitedIds st = (t, st') \<Longrightarrow>
   tasks st' = tasks st"
  unfolding getInternalParentRecursive_def Let_def
  by (auto split: if_splits prod.splits option.splits sum.splits)

lemma getInternalParentRecursive_cases:
  assumes "getInternalParentRecursive ctx remote_folders folder visitedIds st = (t, st')"
  obtains
    (cycle) "remote_parent_id folder \<in> set visitedIds" "t = Resolved None"
      "st' = st\<lparr>rworld := logger LogWarn
                (''Circular reference detected for folder '' @ folder_id folder) (rworld st)\<rparr>"
  | (resolved) r cache where "remote_parent_id folder \<notin> set visitedIds"
      "resolveParentId (remote_parent_id folder) (folderIdToInternalIdMap st) (ctx_driveIds ctx)
         (ctx_connectionId ctx) (parentLookupCache st) (db (rworld st)) = (r, cache)"
      "truthy_opt r" "t = Resolved r" "st' = st\<lparr>parentLookupCache := cache\<rparr>"
  | (known) r cache parentFolder where "remote_parent_id folder \<notin> set visitedIds"
      "resolveParentId (remote_parent_id folder) (folderIdToInternalIdMap st) (ctx_driveIds ctx)
         (ctx_connectionId ctx) (parentLookupCache st) (db (rworld st)) = (r, cache)"
      "\<not> truthy_opt r"
      "find (\<lambda>f. folder_id f = remote_parent_id folder) (rev remote_folders) = Some parentFolder"
      "t = Walk parentFolder (remote_parent_id folder # visitedIds)"
      "st' = st\<lparr>parentLookupCache := cache\<rparr>"
  | (fetched) r cache out where "remote_parent_id folder \<notin> set visitedIds"
      "resolveParentId (remote_parent_id folder) (folderIdToInternalIdMap st) (ctx_driveIds ctx)
         (ctx_connectionId ctx) (parentLookupCache st) (db (rworld st)) = (r, cache)"
      "\<not> truthy_opt r"
      "find (\<lambda>f. folder_id f = remote_parent_id folder) (rev remote_folders) = None"
      "executeWithRetry (remote_call (drive_files_get (ctx_env ctx) (remote_parent_id folder))) 0
         (rworld st) = out"
      "(case out of
          None \<Rightarrow> (Hung, st\<lparr>parentLookupCache := cache\<rparr>)
        | Some (Inl error, w) \<Rightarrow>
            (Resolved None,
             st\<lparr>parentLookupCache := cache,
                rworld := logger LogError
                  (''Failed to resolve parent for folder '' @ folder_id folder) w\<rparr>)
        | Some (Inr None, w) \<Rightarrow>
            (Resolved None, st\<lparr>parentLookupCache := cache, rworld := w\<rparr>)
        | Some (Inr (Some parentFolder), w) \<Rightarrow>
            (Walk parentFolder (remote_parent_id folder # visitedIds),
             st\<lparr>parentLookupCache := cache, rworld := w\<rparr>)) = (t, st')"
proof (cases "remote_parent_id folder \<in> set visitedIds")
  case True
  with assms show ?thesis
    by (intro cycle) (simp_all add: getInternalParentRecursive_def)
next
  case False
  obtain r cache where rc:
    "resolveParentId (remote_parent_id folder) (folderIdToInternalIdMap st) (ctx_driveIds ctx)
         (ctx_connectionId ctx) (parentLookupCache st) (db (rworld st)) = (r, cache)"
    by (cases "resolveParentId (remote_parent_id folder) (folderIdToInternalIdMap st)
         (ctx_driveIds ctx) (ctx_connectionId ctx) (parentLookupCache st) (db (rworld st))")
  show ?thesis
  proof (cases "truthy_opt r")
    case True
    with assms False rc show ?thesis
      by (intro resolved [of r cache]) (simp_all add: getInternalParentRecursive_def)
  next
    case nt: False
    show ?thesis
    proof (cases "find (\<lambda>f. folder_id f = remote_parent_id folder) (rev remote_folders)")
      case (Some parentFolder)
      with assms False rc nt show ?thesis
        by (intro known [of r cache parentFolder]) (simp_all add: getInternalParentRecursive_def)
    next
      case None
      with assms False rc nt show ?thesis
        by (intro fetched [of r cache]) (simp_all add: getInternalParentRecursive_def Let_def)
    qed
  qed
qed

lemma getInternalParentRecursive_work:
  assumes "getInternalParentRecursive ctx remote_folders folder visitedIds st = (t, st')"
  shows "task_work (fetchable ctx remote_folders) t
         < task_work (fetchable ctx remote_folders) (Walk folder visitedIds)"
proof (cases t)
  case (Walk g vs)
  from assms have "vs = remote_parent_id folder # visitedIds \<and>
      remote_parent_id folder \<notin> set visitedIds \<and>
      remote_parent_id folder \<in> fetchable ctx remote_folders"
  proof (cases rule: getInternalParentRecursive_cases)
    case cycle
    with Walk show ?thesis by simp
  next
    case (resolved r cache)
    with Walk show ?thesis by simp
  next
    case (known r cache parentFolder)
    with Walk show ?thesis
      by (auto simp: fetchable_def dest: find_rev_folder_id)
  next
    case (fetched r cache out)
    with Walk show ?thesis
      by (auto simp: fetchable_def split: option.splits sum.splits
               dest!: executeWithRetry_remote_call_Inr drive_files_get_known)
  qed
  then have vs: "vs = remote_parent_id folder # visitedIds"
    and new: "remote_parent_id folder \<notin> set visitedIds"
    and known: "remote_parent_id folder \<in> fetchable ctx remote_folders"
    by simp_all
  have fin: "finite (fetchable ctx remote_folders)"
    by (simp add: fetchable_def)
  have "fetchable ctx remote_folders - set vs \<subset> fetchable ctx remote_folders - set visitedIds"
    using vs new known by auto
  then have "card (fetchable ctx remote_folders - set vs)
             < card (fetchable ctx remote_folders - set visitedIds)"
    using fin by (intro psubset_card_mono) auto
  with Walk show ?thesis by simp
qed simp_all

lemma step_task_work:
  assumes "next_active (tasks st) = Some i"
  shows "work ctx remote_folders (step_task ctx remote_folders i st) < work ctx remote_folders st"
proof -
  from assms have i: "i < length (tasks st)" and act: "active (snd (tasks st ! i))"
    by (auto dest: next_active_Some)
  obtain folder t where ft: "tasks st ! i = (folder, t)"
    by (cases "tasks st ! i")
  show ?thesis
  proof (cases t)
    case (Walk current visitedIds)
    obtain t' st' where g:
      "getInternalParentRecursive ctx remote_folders current visitedIds st = (t', st')"
      by (cases "getInternalParentRecursive ctx remote_folders current visitedIds st")
    have "tasks st' = tasks st"
      using g by (rule getInternalParentRecursive_tasks)
    moreover have "task_work (fetchable ctx remote_folders) t'
                   < task_work (fetchable ctx remote_folders) (Walk current visitedIds)"
      using g by (rule getInternalParentRecursive_work)
    ultimately show ?thesis
      using i ft Walk g
      by (simp add: step_task_def work_def sum_list_map_update_less)
  next
    case (Resolved r)
    then show ?thesis
      using i ft
      by (simp add: step_task_def work_def Let_def record_resolved_tasks sum_list_map_update_less)
  next
    case Finished
    with act ft show ?thesis by simp
  next
    case Hung
    with act ft show ?thesis by simp
  qed
qed

text \<open>
  \<open>drain\<close> lets the tasks that are still active run to their end, the first one first.
\<close>

function drain :: "resolver_ctx \<Rightarrow> folder list \<Rightarrow> resolver_state \<Rightarrow> resolver_state" where
  "drain ctx remote_folders st =
     (case next_active (tasks st) of
        None \<Rightarrow> st
      | Some i \<Rightarrow> drain ctx remote_folders (step_task ctx remote_folders i st))"
  by pat_completeness auto
termination
  by (relation "measure (\<lambda>(ctx, remote_folders, st). work ctx remote_folders st)")
     (auto simp: step_task_work)

declare drain.simps [simp del]

text \<open>No walk of the state awaits a request that never settles.\<close>

definition hung_free :: "resolver_state \<Rightarrow> bool" where
  "hung_free st = (\<forall>ft \<in> set (tasks st). snd ft \<noteq> Hung)"

text \<open>
  \<open>handleUnresolvedFolders\<close>. Calling the callback of \<open>pending.map\<close> for each pending
  folder runs the first call of its walk at once, in the order of \<open>pending\<close>; from then on
  the walks interleave. \<open>schedule\<close> names the task that takes each following step (a name
  that is out of range or belongs to a task that has ended takes no step); whatever the
  schedule leaves undone is then run to the end. \<open>Promise.all\<close> settles when every walk
  has recorded its result, and never if one hangs.
\<close>

definition handleUnresolvedFolders ::
  "resolver_ctx \<Rightarrow> nat list \<Rightarrow> folder list \<Rightarrow> folder list \<Rightarrow> resolver_state \<Rightarrow> resolver_state option" where
  "handleUnresolvedFolders ctx schedule pending remote_folders st =
     (let st0 = st\<lparr>rworld := logger LogWarn
                   (''Found '' @ nat_to_string (length pending) @
                    '' unresolved folders. Resolving them...'') (rworld st),
                 tasks := map (\<lambda>folder. (folder, Walk folder [])) pending\<rparr>;
          st1 = fold (step_task ctx remote_folders) [0..<length pending] st0;
          st2 = fold (step_task ctx remote_folders) schedule st1;
          st3 = drain ctx remote_folders st2
      in if list_ex (\<lambda>ft. snd ft = Hung) (tasks st3) then None else Some st3)"

subsection \<open>The pass loop\<close>

text \<open>One pass of the \<open>for\<close> loop over \<open>remainingFolders\<close>.\<close>

fun processFolders_pass ::
  "resolver_ctx \<Rightarrow> folder list \<Rightarrow> folder list \<Rightarrow> resolver_state \<Rightarrow> folder list \<times> resolver_state" where
  "processFolders_pass ctx [] foldersStillPending st = (foldersStillPending, st)"
| "processFolders_pass ctx (folder # rest) foldersStillPending st =
     (case resolveParentId (remote_parent_id folder) (folderIdToInternalIdMap st)
             (ctx_driveIds ctx) (ctx_connectionId ctx) (parentLookupCache st) (db (rworld st)) of
        (internalParentId, cache) \<Rightarrow>
          (case internalParentId of
             None \<Rightarrow>
               processFolders_pass ctx rest (foldersStillPending @ [folder])
                 (st\<lparr>parentLookupCache := cache\<rparr>)
           | Some p \<Rightarrow>
               if truthy p then
                 (case getIntenalIdForFolder (ctx_env ctx) (folder_id folder)
                         (ctx_connectionId ctx) (rworld st) of
                    (folder_internal_id, w) \<Rightarrow>
                      processFolders_pass ctx rest foldersStillPending
                        (st\<lparr>parentLookupCache := cache,
                            foldersToSync := foldersToSync st @
                              [createFolderWithInternalIds folder p folder_internal_id],
                            folderIdToInternalIdMap :=
                              (folderIdToInternalIdMap st)(folder_id folder \<mapsto> folder_internal_id),
                            rworld := w\<rparr>))
               else
                 processFolders_pass ctx rest (foldersStillPending @ [folder])
                   (st\<lparr>parentLookupCache := cache\<rparr>)))"

lemma processFolders_pass_length:
  "processFolders_pass ctx remaining pending st = (pending', st') \<Longrightarrow>
   length pending' \<le> length pending + length remaining"
proof (induction remaining arbitrary: pending st)
  case Nil
  then show ?case by simp
next
  case (Cons folder rest)
  then show ?case
    by (fastforce split: prod.splits option.splits if_splits)
qed

text \<open>The \<open>while (remainingFolders.length > 0)\<close> loop.\<close>

function processFolders_loop ::
  "resolver_ctx \<Rightarrow> nat list \<Rightarrow> folder list \<Rightarrow> resolver_state \<Rightarrow> resolver_state option" where
  "processFolders_loop ctx schedule remainingFolders st =
     (if remainingFolders = [] then Some st
      else
        (case processFolders_pass ctx remainingFolders [] st of
           (foldersStillPending, st') \<Rightarrow>
             if isStuckInLoop foldersStillPending remainingFolders then
               handleUnresolvedFolders ctx schedule foldersStillPending (foldersToSync st') st'
             else processFolders_loop ctx schedule foldersStillPending st'))"
  by pat_completeness auto
termination
  apply (relation "measure (\<lambda>(ctx, schedule, remainingFolders, st). length remainingFolders)")
   apply simp
  subgoal premises prems for ctx schedule remainingFolders st foldersStillPending st'
  proof -
    from prems have p:
      "processFolders_pass ctx remainingFolders [] st = (foldersStillPending, st')"
      by simp
    from processFolders_pass_length [OF p] prems(3) show ?thesis
      by (simp add: isStuckInLoop_def)
  qed
  done

declare processFolders_loop.simps [simp del]

definition processFoldersWithParents ::
  "resolver_ctx \<Rightarrow> nat list \<Rightarrow> folder list \<Rightarrow> world \<Rightarrow> folder list async" where
  "processFoldersWithParents ctx schedule folders w =
     (case processFolders_loop ctx schedule folders
             \<lparr>folderIdToInternalIdMap = Map.empty, parentLookupCache = Map.empty,
              foldersToSync = [], tasks = [], rworld = w\<rparr> of
        None \<Rightarrow> None
      | Some st \<Rightarrow> Some (Inr (foldersToSync st), rworld st))"

subsection \<open>Predicates for the analysis of a two-folder cycle\<close>


definition walk_inv :: "folder \<Rightarrow> folder \<Rightarrow> folder \<Rightarrow> task \<Rightarrow> resolver_state \<Rightarrow> bool" where
  "walk_inv X X' Y' t st =
     ((t = Walk Y' [remote_parent_id X] \<or> t = Walk X' [folder_id X, remote_parent_id X] \<or>
       t = Resolved None \<or> t = Finished) \<and>
      (t \<noteq> Finished \<longrightarrow> folderIdToInternalIdMap st (folder_id X) = None) \<and>
      (t = Finished \<longrightarrow>
         (\<exists>u. X\<lparr>internal_parent_folder_id := None, internal_id := Some u\<rparr>
                \<in> set (foldersToSync st))) \<and>
      (t = Resolved None \<or> t = Finished \<longrightarrow>
         (LogWarn, ''Circular reference detected for folder '' @ folder_id X')
           \<in> set (logs (rworld st))))"


section \<open>Deduplicating and relinking permissions\<close>

text \<open>
  A JavaScript \<open>Map\<close> whose iteration order matters is a list of entries in insertion
  order: \<open>set\<close> on a key that is present replaces the value where the key stands.
\<close>

fun map_set :: "'k \<Rightarrow> 'v \<Rightarrow> ('k \<times> 'v) list \<Rightarrow> ('k \<times> 'v) list" where
  "map_set k v [] = [(k, v)]"
| "map_set k v (e # es) = (if fst e = k then (k, v) # es else e # map_set k v es)"

definition new_Map :: "('k \<times> 'v) list \<Rightarrow> ('k \<times> 'v) list" where
  "new_Map entries = fold (\<lambda>e m. map_set (fst e) (snd e) m) entries []"

text \<open>\<open>permission.id\<close>: an internal id that has replaced a permission has no such property.\<close>

fun entry_id :: "permission_entry \<Rightarrow> string option" where
  "entry_id (Embedded p) = Some (permission_id p)"
| "entry_id (Linked s) = None"

definition allPermissions :: "folder list \<Rightarrow> permission_entry list" where
  "allPermissions folders =
     fold (\<lambda>folder accumulator.
             case permissions folder of
               None \<Rightarrow> accumulator
             | Some ps \<Rightarrow> if ps \<noteq> [] then accumulator @ ps else accumulator)
          folders []"

definition uniquePermissions :: "folder list \<Rightarrow> permission_entry list" where
  "uniquePermissions folders =
     map snd (new_Map (map (\<lambda>permission. (entry_id permission, permission)) (allPermissions folders)))"

definition permissionIdMap :: "fs_permission list \<Rightarrow> (string \<times> string) list" where
  "permissionIdMap syncedPermissions =
     new_Map (map (\<lambda>permission. (permission_remote_id permission, id_fs_permission permission))
                syncedPermissions)"

definition map_get :: "(string \<times> string) list \<Rightarrow> string option \<Rightarrow> string option" where
  "map_get m key = (case key of None \<Rightarrow> None | Some k \<Rightarrow> map_of m k)"

definition relink :: "(string \<times> string) list \<Rightarrow> folder \<Rightarrow> folder" where
  "relink m folder =
     (case permissions folder of
        None \<Rightarrow> folder
      | Some ps \<Rightarrow>
          if ps \<noteq> [] then
            folder\<lparr>permissions :=
              Some (map Linked (List.map_filter (\<lambda>permission. map_get m (entry_id permission)) ps))\<rparr>
          else folder)"

definition ingestPermissionsForFolders :: "env \<Rightarrow> folder list \<Rightarrow> string \<Rightarrow> world \<Rightarrow> folder list async" where
  "ingestPermissionsForFolders env folders connectionId w =
     (if folders = [] then
        Some (Inr folders, logger LogWarn ''No folders provided for ingesting permissions.'' w)
      else if allPermissions folders = [] then
        Some (Inr folders, logger LogWarn ''No permissions found in the provided folders.'' w)
      else
        (case ingestData env (uniquePermissions folders) connectionId
                (logger LogInfo
                   (''Ingesting '' @ nat_to_string (length (uniquePermissions folders)) @
                    '' unique permissions.'') w) of
           None \<Rightarrow> None
         | Some (Inl error, w') \<Rightarrow>
             Some (Inl error, logger LogError ''Error ingesting permissions for folders'' w')
         | Some (Inr syncedPermissions, w') \<Rightarrow>
             Some (Inr (map (relink (permissionIdMap syncedPermissions)) folders),
                   logger LogInfo ''Successfully ingested and updated folder permissions.'' w')))"

section \<open>Full scan\<close>

fun assign_internal_ids :: "env \<Rightarrow> string option \<Rightarrow> folder list \<Rightarrow> world \<Rightarrow> folder list \<times> world" where
  "assign_internal_ids env internalParentId [] w = ([], w)"
| "assign_internal_ids env internalParentId (folder # rest) w =
     (case uuidv4 env w of
        (u, w') \<Rightarrow>
          (case assign_internal_ids env internalParentId rest w' of
             (rest', w'') \<Rightarrow>
               (folder\<lparr>internal_id := Some u, internal_parent_folder_id := internalParentId\<rparr> # rest',
                w'')))"

text \<open>
  \<open>populateFolders\<close> lists the folders below one parent, gives them internal ids, appends
  them to \<open>allFolders\<close> and calls itself for each of them; \<open>Promise.all\<close> lets these
  calls run concurrently. A call that has been started and whose listing has not arrived
  yet is a \<open>Descend parentId internalParentId\<close>; \<open>Returned\<close> is a call whose own work
  is done, \<open>Stalled\<close> one whose listing never arrives. The scan of one drive is the list
  of the calls started so far, together with \<open>allFolders\<close> and the world.
\<close>

datatype descent = Descend "string option" "string option" | Returned | Stalled

record scan_state =
  allFolders :: "folder list"
  descents :: "descent list"
  sworld :: world

text \<open>
  The body of \<open>populateFolders\<close> for the call number \<open>i\<close>, from the arrival of its
  listing to the start of the calls for the folders listed. A failed listing rejects the
  call, and with it every \<open>Promise.all\<close> above it.
\<close>

definition populateFolders ::
  "env \<Rightarrow> string \<Rightarrow> string \<Rightarrow> nat \<Rightarrow> scan_state \<Rightarrow> (thrown \<times> world) + scan_state" where
  "populateFolders env rootDriveId driveId i st =
     (if i < length (descents st) then
        (case descents st ! i of
           Descend parentId internalParentId \<Rightarrow>
             (case fetchFoldersForParent env rootDriveId parentId driveId (sworld st) of
                None \<Rightarrow> Inr (st\<lparr>descents := (descents st)[i := Stalled]\<rparr>)
              | Some (Inl error, w) \<Rightarrow> Inl (error, w)
              | Some (Inr fetched, w) \<Rightarrow>
                  (case assign_internal_ids env internalParentId fetched w of
                     (currentLevelFolders, w') \<Rightarrow>
                       Inr (st\<lparr>allFolders := allFolders st @ currentLevelFolders,
                               descents := (descents st)[i := Returned] @
                                 map (\<lambda>folder. Descend (Some (folder_id folder)) (internal_id folder))
                                   currentLevelFolders,
                               sworld := w'\<rparr>)))
         | Returned \<Rightarrow> Inr st
         | Stalled \<Rightarrow> Inr st)
      else Inr st)"

fun waiting :: "descent \<Rightarrow> bool" where
  "waiting (Descend parentId internalParentId) = True"
| "waiting Returned = False"
| "waiting Stalled = False"

fun next_descent :: "descent list \<Rightarrow> nat option" where
  "next_descent [] = None"
| "next_descent (d # ds) = (if waiting d then Some 0 else map_option Suc (next_descent ds))"

text \<open>
  The order in which the listings of concurrent calls arrive is not fixed by the code:
  each entry of \<open>schedule\<close> names the call whose listing arrives next, and where the
  schedule is used up, or names a call that is not waiting, the call started first is
  served, which visits the folders level by level. \<open>fuel\<close> bounds the number of listings;
  \<open>None\<close> is a scan that has not ended within it or that waits for a stalled call. The
  result carries the part of the schedule that is left.
\<close>

fun populateFolders_run ::
  "nat \<Rightarrow> nat list \<Rightarrow> env \<Rightarrow> string \<Rightarrow> string \<Rightarrow> scan_state \<Rightarrow>
   ((thrown \<times> world) + (nat list \<times> scan_state)) option" where
  "populateFolders_run 0 schedule env rootDriveId driveId st =
     (case next_descent (descents st) of
        None \<Rightarrow> if Stalled \<in> set (descents st) then None else Some (Inr (schedule, st))
      | Some first \<Rightarrow> None)"
| "populateFolders_run (Suc fuel) schedule env rootDriveId driveId st =
     (case next_descent (descents st) of
        None \<Rightarrow> if Stalled \<in> set (descents st) then None else Some (Inr (schedule, st))
      | Some first \<Rightarrow>
          (let i = (case schedule of
                      [] \<Rightarrow> first
                    | j # rest \<Rightarrow>
                        if j < length (descents st) \<and> waiting (descents st ! j) then j else first)
           in case populateFolders env rootDriveId driveId i st of
                Inl failure \<Rightarrow> Some (Inl failure)
              | Inr st' \<Rightarrow> populateFolders_run fuel (tl schedule) env rootDriveId driveId st'))"

text \<open>The \<open>for\<close> loop over the drives: one scan after the other.\<close>

fun populateFolders_drives ::
  "nat \<Rightarrow> nat list \<Rightarrow> env \<Rightarrow> string \<Rightarrow> string list \<Rightarrow> folder list \<Rightarrow> world \<Rightarrow> folder list async" where
  "populateFolders_drives fuel schedule env rootDriveId [] googleDriveFolders w =
     Some (Inr googleDriveFolders, w)"
| "populateFolders_drives fuel schedule env rootDriveId (driveId # rest) googleDriveFolders w =
     (case populateFolders_run fuel schedule env rootDriveId driveId
             \<lparr>allFolders = googleDriveFolders, descents = [Descend None None], sworld = w\<rparr> of
        None \<Rightarrow> None
      | Some (Inl (error, w')) \<Rightarrow> Some (Inl error, w')
      | Some (Inr (schedule', st)) \<Rightarrow>
          populateFolders_drives fuel schedule' env rootDriveId rest (allFolders st) (sworld st))"

definition recursiveGetGoogleDriveFolders :: "nat \<Rightarrow> nat list \<Rightarrow> env \<Rightarrow> world \<Rightarrow> folder list async" where
  "recursiveGetGoogleDriveFolders fuel schedule env w =
     (case executeWithRetry (remote_call (data_id (drive_files_get env ''root''))) 0 w of
        None \<Rightarrow> None
      | Some (Inl error, w1) \<Rightarrow> Some (Inl error, w1)
      | Some (Inr rootDriveId, w1) \<Rightarrow>
          (case fetchDriveIds env w1 of
             None \<Rightarrow> None
           | Some (Inl error, w2) \<Rightarrow>
               Some (Inl error, logger LogError ''Error in recursiveGetGoogleDriveFolders'' w2)
           | Some (Inr driveIds, w2) \<Rightarrow>
               (case populateFolders_drives fuel schedule env rootDriveId driveIds [] w2 of
                  None \<Rightarrow> None
                | Some (Inl error, w3) \<Rightarrow>
                    Some (Inl error, logger LogError ''Error in recursiveGetGoogleDriveFolders'' w3)
                | Some (Inr googleDriveFolders, w3) \<Rightarrow> Some (Inr googleDriveFolders, w3))))"

section \<open>Incremental sync\<close>

definition getFoldersIncremental ::
  "env \<Rightarrow> nat list \<Rightarrow> string \<Rightarrow> nat \<Rightarrow> world \<Rightarrow> folder list async" where
  "getFoldersIncremental env schedule connectionId lastSyncTime w =
     (case fetchDriveIds env w of
        None \<Rightarrow> None
      | Some (Inl error, w1) \<Rightarrow>
          Some (Inl error, logger LogError ''Error in incremental folder sync'' w1)
      | Some (Inr driveIds, w1) \<Rightarrow>
          (case executeWithRetry (getModifiedFolders env lastSyncTime) 0 w1 of
             None \<Rightarrow> None
           | Some (Inl error, w2) \<Rightarrow>
               Some (Inl error, logger LogError ''Error in incremental folder sync'' w2)
           | Some (Inr modifiedFolders, w2) \<Rightarrow>
               (case processFoldersWithParents
                       \<lparr>ctx_env = env, ctx_driveIds = driveIds, ctx_connectionId = connectionId\<rparr>
                       schedule modifiedFolders w2 of
                  None \<Rightarrow> None
                | Some (Inl error, w3) \<Rightarrow>
                    Some (Inl error, logger LogError ''Error in incremental folder sync'' w3)
                | Some (Inr folders, w3) \<Rightarrow> Some (Inr folders, w3))))"

text \<open>
  \<open>findFirst\<close> with \<open>orderBy: { remote_modified_at: 'desc' }\<close> returns the row that comes
  first in descending order, in which a row without a modification time precedes all others.
\<close>

fun latest :: "nat option list \<Rightarrow> nat option" where
  "latest [] = None"
| "latest [t] = t"
| "latest (t # u # ts) =
     (case t of
        None \<Rightarrow> None
      | Some a \<Rightarrow> (case latest (u # ts) of None \<Rightarrow> None | Some b \<Rightarrow> Some (max a b)))"

definition getLastSyncTime :: "string \<Rightarrow> world \<Rightarrow> nat option" where
  "getLastSyncTime connectionId w =
     latest (map remote_modified_at
               (filter (\<lambda>r. folder_connection r = connectionId) (fs_folders (db w))))"

section \<open>The sync entry point\<close>

record sync_param =
  linkedUserId :: string

record api_response =
  response_data :: "folder list"
  response_message :: string
  statusCode :: nat

text \<open>
  The body of the \<open>try\<close> block of \<open>sync\<close> once the connection is found. The credentials
  are not modelled: the provider of \<open>env\<close> stands for the authorised client.
\<close>

definition sync_connection ::
  "nat \<Rightarrow> nat list \<Rightarrow> env \<Rightarrow> connection \<Rightarrow> world \<Rightarrow> api_response async" where
  "sync_connection fuel schedule env connection w =
     (case (case getLastSyncTime (id_connection connection) w of
              Some lastSyncTime \<Rightarrow>
                getFoldersIncremental env schedule (id_connection connection) lastSyncTime w
            | None \<Rightarrow> recursiveGetGoogleDriveFolders fuel schedule env w) of
        None \<Rightarrow> None
      | Some (Inl error, w1) \<Rightarrow> Some (Inl error, w1)
      | Some (Inr folders, w1) \<Rightarrow>
          (case ingestPermissionsForFolders env folders (id_connection connection) w1 of
             None \<Rightarrow> None
           | Some (Inl error, w2) \<Rightarrow> Some (Inl error, w2)
           | Some (Inr folders', w2) \<Rightarrow>
               Some (Inr \<lparr>response_data = folders',
                          response_message = ''Google Drive folders retrieved'',
                          statusCode = 200\<rparr>,
                     logger LogInfo
                       (''Synced '' @ nat_to_string (length folders') @ '' Google Drive folders!'')
                       w2)))"

definition sync :: "nat \<Rightarrow> nat list \<Rightarrow> env \<Rightarrow> sync_param \<Rightarrow> world \<Rightarrow> api_response async" where
  "sync fuel schedule env data w =
     (case find (\<lambda>c. id_linked_user c = linkedUserId data \<and> provider_slug c = ''googledrive'' \<and>
                      vertical c = ''filestorage'') (connections (db w)) of
        None \<Rightarrow>
          Some (Inr \<lparr>response_data = [], response_message = ''Connection not found'',
                     statusCode = 404\<rparr>, w)
      | Some connection \<Rightarrow>
          (case sync_connection fuel schedule env connection w of
             None \<Rightarrow> None
           | Some (Inl error, w') \<Rightarrow>
               Some (Inl error, logger LogError ''Error syncing Google Drive folders'' w')
           | Some (Inr response, w') \<Rightarrow> Some (Inr response, w')))"

section \<open>The Zendesk stage mapper\<close>

subsection \<open>Provider records and property reads\<close>

text \<open>
  A provider record is the object parsed from a JSON response, so what it holds are JSON
  values. A number is kept as the text that \<open>String\<close> gives for it (\<open>7\<close> for 7,
  \<open>1e+21\<close> for 1e21); an object is the list of its own properties, in which the first
  pair for a name counts.
\<close>

datatype json =
    JNull | JBool bool | JNumber string | JString string
  | JArray "json list" | JObject "(string \<times> json) list"

type_synonym zendesk_stage = "(string \<times> json) list"

text \<open>
  What a property read can give: \<open>undefined\<close>, a JSON value, or, for a name that the
  object inherits, the object \<open>Object.prototype\<close> itself (under \<open>__proto__\<close>) or one of
  its functions.
\<close>

datatype js_value = Undefined | Json json | ObjectPrototype | ObjectPrototypeFunction string

definition object_prototype_functions :: "string list" where
  "object_prototype_functions =
     [''constructor'', ''__defineGetter__'', ''__defineSetter__'', ''hasOwnProperty'',
      ''__lookupGetter__'', ''__lookupSetter__'', ''isPrototypeOf'', ''propertyIsEnumerable'',
      ''toString'', ''valueOf'', ''toLocaleString'']"

text \<open>\<open>stage[k]\<close>: the own property, else what \<open>Object.prototype\<close> provides.\<close>

definition stage_get :: "zendesk_stage \<Rightarrow> string \<Rightarrow> js_value" where
  "stage_get stage k =
     (case map_of stage k of
        Some v \<Rightarrow> Json v
      | None \<Rightarrow>
          if k = ''__proto__'' then ObjectPrototype
          else if k \<in> set object_prototype_functions then ObjectPrototypeFunction k
          else Undefined)"

datatype js_error = TypeError

text \<open>
  \<open>String(v)\<close> for \<open>undefined\<close> and JSON values. An array is joined with commas, \<open>null\<close>
  elements giving the empty string. An object is converted by its \<open>toString\<close>: the
  inherited one gives \<open>[object Object]\<close>; an own property of that name holds a JSON
  value, which cannot be called, and neither that nor \<open>valueOf\<close> then yields a primitive,
  so the conversion throws.
\<close>

fun json_String :: "json \<Rightarrow> js_error + string"
  and json_join :: "json list \<Rightarrow> js_error + string" where
  "json_String JNull = Inr ''null''"
| "json_String (JBool b) = Inr (if b then ''true'' else ''false'')"
| "json_String (JNumber r) = Inr r"
| "json_String (JString s) = Inr s"
| "json_String (JArray xs) = json_join xs"
| "json_String (JObject props) =
     (if ''toString'' \<in> fst ` set props then Inl TypeError else Inr ''[object Object]'')"
| "json_join [] = Inr ''''"
| "json_join (x # xs) =
     (case (if x = JNull then Inr '''' else json_String x) of
        Inl e \<Rightarrow> Inl e
      | Inr s \<Rightarrow>
          if xs = [] then Inr s
          else (case json_join xs of Inl e \<Rightarrow> Inl e | Inr t \<Rightarrow> Inr (s @ '','' @ t)))"

fun js_String :: "js_value \<Rightarrow> js_error + string" where
  "js_String Undefined = Inr ''undefined''"
| "js_String (Json v) = json_String v"
| "js_String ObjectPrototype = Inr ''[object Object]''"
| "js_String (ObjectPrototypeFunction n) =
     Inr (''function '' @ (if n = ''constructor'' then ''Object'' else n) @
          ''() { [native code] }'')"

subsection \<open>The object \<open>field_mappings\<close>\<close>

text \<open>
  \<open>field_mappings\<close> is created by the literal \<open>{}\<close>: an object without own properties
  whose prototype is \<open>Object.prototype\<close>. The model keeps its own properties and its
  prototype. A read \<open>field_mappings[k]\<close> gives the own property \<open>k\<close> when there is one and
  is answered by the prototype otherwise.
\<close>

record js_object =
  own_properties :: "string \<rightharpoonup> js_value"
  prototype :: js_value

definition empty_object :: js_object where
  "empty_object = \<lparr>own_properties = Map.empty, prototype = ObjectPrototype\<rparr>"

text \<open>
  An assignment \<open>obj[k] = v\<close> to a name that is not an own property consults the
  prototype chain. \<open>Object.prototype\<close> holds one accessor, \<open>__proto__\<close>, whose setter
  replaces the prototype of \<open>obj\<close>; a function has the read-only properties \<open>name\<close> and
  \<open>length\<close> (the constructor \<open>Object\<close> also \<open>prototype\<close>) and inherits the accessors
  \<open>caller\<close> and \<open>arguments\<close>, whose setter throws; every other property that the
  prototypes arising here hold is a writable data property, which an assignment shadows
  with a new own property.
\<close>

datatype set_path = DefineOwn | CallProtoSetter | Reject

definition object_prototype_set :: "string \<Rightarrow> set_path" where
  "object_prototype_set k = (if k = ''__proto__'' then CallProtoSetter else DefineOwn)"

fun prototype_set :: "js_value \<Rightarrow> string \<Rightarrow> set_path" where
  "prototype_set (Json (JObject props)) k =
     (if k \<in> fst ` set props then DefineOwn else object_prototype_set k)"
| "prototype_set (Json (JArray xs)) k = object_prototype_set k"
| "prototype_set (Json v) k = DefineOwn"
| "prototype_set ObjectPrototype k = object_prototype_set k"
| "prototype_set (ObjectPrototypeFunction n) k =
     (if k \<in> set [''name'', ''length'', ''caller'', ''arguments''] \<or>
         (n = ''constructor'' \<and> k = ''prototype'')
      then Reject else object_prototype_set k)"
| "prototype_set Undefined k = DefineOwn"

fun is_object_or_null :: "js_value \<Rightarrow> bool" where
  "is_object_or_null (Json JNull) = True"
| "is_object_or_null (Json (JArray xs)) = True"
| "is_object_or_null (Json (JObject props)) = True"
| "is_object_or_null (Json v) = False"
| "is_object_or_null ObjectPrototype = True"
| "is_object_or_null (ObjectPrototypeFunction n) = True"
| "is_object_or_null Undefined = False"

text \<open>
  \<open>obj[k] = v\<close> in strict code (the mapper is a method of a class): a rejected assignment
  throws a \<open>TypeError\<close>. The \<open>__proto__\<close> setter ignores a value that is neither an
  object nor \<open>null\<close>.
\<close>

definition set_property :: "js_object \<Rightarrow> string \<Rightarrow> js_value \<Rightarrow> js_error + js_object" where
  "set_property obj k v =
     (if own_properties obj k \<noteq> None
      then Inr (obj\<lparr>own_properties := (own_properties obj)(k \<mapsto> v)\<rparr>)
      else
        (case prototype_set (prototype obj) k of
           DefineOwn \<Rightarrow> Inr (obj\<lparr>own_properties := (own_properties obj)(k \<mapsto> v)\<rparr>)
         | CallProtoSetter \<Rightarrow> Inr (if is_object_or_null v then obj\<lparr>prototype := v\<rparr> else obj)
         | Reject \<Rightarrow> Inl TypeError))"

subsection \<open>The mapper\<close>

record custom_field_mapping =
  slug :: string
  mapping_remote_id :: string

record unified_stage =
  stage_remote_id :: string
  remote_data :: zendesk_stage
  stage_name :: js_value
  field_mappings :: js_object

text \<open>The \<open>for\<close> loop over \<open>customFieldMappings\<close>.\<close>

fun assign_field_mappings ::
  "zendesk_stage \<Rightarrow> custom_field_mapping list \<Rightarrow> js_object \<Rightarrow> js_error + js_object" where
  "assign_field_mappings stage [] fm = Inr fm"
| "assign_field_mappings stage (mapping # rest) fm =
     (case set_property fm (slug mapping) (stage_get stage (mapping_remote_id mapping)) of
        Inl e \<Rightarrow> Inl e
      | Inr fm' \<Rightarrow> assign_field_mappings stage rest fm')"

definition mapSingleStageToUnified ::
  "zendesk_stage \<Rightarrow> string \<Rightarrow> custom_field_mapping list option \<Rightarrow> js_error + unified_stage" where
  "mapSingleStageToUnified stage connectionId customFieldMappings =
     (case (case customFieldMappings of
              None \<Rightarrow> Inr empty_object
            | Some mappings \<Rightarrow> assign_field_mappings stage mappings empty_object) of
        Inl e \<Rightarrow> Inl e
      | Inr fm \<Rightarrow>
          (case js_String (stage_get stage ''id'') of
             Inl e \<Rightarrow> Inl e
           | Inr rid \<Rightarrow>
               Inr \<lparr>stage_remote_id = rid,
                    remote_data = stage,
                    stage_name = stage_get stage ''name'',
                    field_mappings = fm\<rparr>))"

datatype 'a one_or_many = One 'a | Many "'a list"

text \<open>\<open>source.map\<close> stops at the first element for which the callback throws.\<close>

fun map_stages :: "('a \<Rightarrow> js_error + 'b) \<Rightarrow> 'a list \<Rightarrow> js_error + 'b list" where
  "map_stages f [] = Inr []"
| "map_stages f (x # xs) =
     (case f x of
        Inl e \<Rightarrow> Inl e
      | Inr y \<Rightarrow> (case map_stages f xs of Inl e \<Rightarrow> Inl e | Inr ys \<Rightarrow> Inr (y # ys)))"

fun unify ::
  "zendesk_stage one_or_many \<Rightarrow> string \<Rightarrow> custom_field_mapping list option \<Rightarrow>
   js_error + unified_stage one_or_many" where
  "unify (One source) connectionId customFieldMappings =
     (case mapSingleStageToUnified source connectionId customFieldMappings of
        Inl e \<Rightarrow> Inl e
      | Inr u \<Rightarrow> Inr (One u))"
| "unify (Many source) connectionId customFieldMappings =
     (case map_stages (\<lambda>stage. mapSingleStageToUnified stage connectionId customFieldMappings)
             source of
        Inl e \<Rightarrow> Inl e
      | Inr us \<Rightarrow> Inr (Many us))"

section \<open>Concrete inputs\<close>

text \<open>A world in which nothing has happened yet and nothing is stored.\<close>

definition world0 :: world where
  "world0 = \<lparr>db = \<lparr>connections = [], fs_folders = [], fs_permissions = []\<rparr>,
     api_calls = 0, slept = [], uuid_calls = 0, logs = []\<rparr>"

text \<open>
  A provider with an empty drive and empty listings, whose \<open>k\<close>-th fresh id is
  \<open>uuid-k\<close>, and an ingestion service that stores nothing.
\<close>

definition env0 :: env where
  "env0 = \<lparr>driveFiles = [],
     files_list = (\<lambda>request. Inr \<lparr>files = Some [], nextPageToken = None\<rparr>),
     drives_list = (\<lambda>pageToken. Inr \<lparr>drives = Some [], drives_nextPageToken = None\<rparr>),
     uuid = (\<lambda>k. ''uuid-'' @ nat_to_string k),
     toISOString = nat_to_string,
     ingest = (\<lambda>records connectionId d. (Inr [], d))\<rparr>"

text \<open>A folder named \<open>i\<close> with the remote parents \<open>ps\<close> and nothing else.\<close>

definition remote_folder :: "string \<Rightarrow> string list option \<Rightarrow> folder" where
  "remote_folder i ps =
     \<lparr>folder_id = i, name = i, parents = ps, folder_driveId = None, modifiedTime = [],
      permissions = None, internal_id = None, internal_parent_folder_id = None\<rparr>"

text \<open>A provider that serves one listing in three pages, the second of them empty.\<close>

definition paged_env :: env where
  "paged_env = env0\<lparr>files_list :=
     (\<lambda>request.
        case request_pageToken request of
          None \<Rightarrow> Inr \<lparr>files = Some [remote_folder ''f1'' None, remote_folder ''f2'' None],
                      nextPageToken = Some ''t1''\<rparr>
        | Some t \<Rightarrow>
            if t = ''t1'' then Inr \<lparr>files = Some [], nextPageToken = Some ''t2''\<rparr>
            else Inr \<lparr>files = Some [remote_folder ''f3'' None], nextPageToken = None\<rparr>)\<rparr>"

text \<open>
  Two folders that embed the same permission \<open>perm-1\<close> (with different content), and an
  ingestion service that ingests \<open>perm-1\<close> only.
\<close>

definition shared_folders :: "folder list" where
  "shared_folders =
     [(remote_folder ''a'' None)
        \<lparr>permissions := Some [Embedded \<lparr>permission_id = ''perm-1'', permission_role = ''reader''\<rparr>]\<rparr>,
      (remote_folder ''b'' None)
        \<lparr>permissions := Some [Embedded \<lparr>permission_id = ''perm-1'', permission_role = ''writer''\<rparr>,
                               Embedded \<lparr>permission_id = ''perm-2'', permission_role = ''owner''\<rparr>]\<rparr>]"

definition ingesting_env :: env where
  "ingesting_env = env0\<lparr>ingest :=
     (\<lambda>records connectionId d.
        (Inr [\<lparr>id_fs_permission = ''int-1'', permission_remote_id = ''perm-1'',
                permission_connection = connectionId\<rparr>], d))\<rparr>"

text \<open>
  Resolver inputs: one shared drive \<open>drive1\<close> on connection \<open>c1\<close>; a drive that holds a
  folder \<open>b\<close> lying directly in \<open>drive1\<close>; a drive in which \<open>a\<close> and \<open>b\<close> are each
  other's parent; and a store in which \<open>a\<close> is already persisted as \<open>id-a\<close>.
\<close>

definition ctx0 :: resolver_ctx where
  "ctx0 = \<lparr>ctx_env = env0, ctx_driveIds = [''drive1''], ctx_connectionId = ''c1''\<rparr>"

definition ctx_b :: resolver_ctx where
  "ctx_b = \<lparr>ctx_env = env0\<lparr>driveFiles :=
               [(''b'', Inr (Some (remote_folder ''b'' (Some [''drive1'']))))]\<rparr>,
            ctx_driveIds = [''drive1''], ctx_connectionId = ''c1''\<rparr>"


definition world_a :: world where
  "world_a = world0\<lparr>db := \<lparr>connections = [],
       fs_folders = [\<lparr>id_fs_folder = ''id-a'', remote_id = ''a'', folder_connection = ''c1'',
                      remote_modified_at = Some 5\<rparr>],
       fs_permissions = []\<rparr>\<rparr>"

text \<open>
  A drive \<open>d\<close> with the folders \<open>p1\<close> and \<open>p2\<close> at the top, \<open>q1\<close> in \<open>p1\<close>, \<open>q2\<close> in
  \<open>p2\<close> and \<open>r1\<close> in \<open>q1\<close>.
\<close>

definition tree_env :: env where
  "tree_env = env0\<lparr>files_list :=
     (\<lambda>request.
        if request_q request = buildQuery None ''d'' then
          Inr \<lparr>files = Some [remote_folder ''p1'' None, remote_folder ''p2'' None],
               nextPageToken = None\<rparr>
        else if request_q request = buildQuery (Some ''p1'') ''d'' then
          Inr \<lparr>files = Some [remote_folder ''q1'' None], nextPageToken = None\<rparr>
        else if request_q request = buildQuery (Some ''p2'') ''d'' then
          Inr \<lparr>files = Some [remote_folder ''q2'' None], nextPageToken = None\<rparr>
        else if request_q request = buildQuery (Some ''q1'') ''d'' then
          Inr \<lparr>files = Some [remote_folder ''r1'' None], nextPageToken = None\<rparr>
        else Inr \<lparr>files = Some [], nextPageToken = None\<rparr>)\<rparr>"
section \<open>Properties of the rate-limited executor\<close>

lemma nat_to_string_MAX: "nat_to_string MAX_API_RETRIES = ''3''"
  by (simp add: MAX_API_RETRIES_def nat_to_string.simps)

lemma simulated_provider_step:
  "simulated_provider outcomes w =
     Some (outcomes (api_calls w), w\<lparr>api_calls := Suc (api_calls w)\<rparr>)"
  by (simp add: simulated_provider_def remote_call_def)

lemma executeWithRetry_simulated_retry:
  assumes "outcomes (api_calls w) = Inl e" "isRateLimitError e" "n < MAX_API_RETRIES"
  shows "executeWithRetry (simulated_provider outcomes) n w =
         executeWithRetry (simulated_provider outcomes) (Suc n)
           (w\<lparr>api_calls := Suc (api_calls w),
              slept := slept w @ [RATE_LIMIT_DELAY, BASE_BACKOFF_MS * 2 ^ n]\<rparr>)"
  using assms
  by (subst executeWithRetry.simps) (simp add: simulated_provider_step delay_def)

lemma executeWithRetry_simulated_prefix:
  "\<forall>j<k. \<exists>e. outcomes (api_calls w + j) = Inl e \<and> isRateLimitError e \<Longrightarrow>
   n + k \<le> MAX_API_RETRIES \<Longrightarrow>
   executeWithRetry (simulated_provider outcomes) n w =
   executeWithRetry (simulated_provider outcomes) (n + k)
     (w\<lparr>api_calls := api_calls w + k,
        slept := slept w @
          concat (map (\<lambda>i. [RATE_LIMIT_DELAY, BASE_BACKOFF_MS * 2 ^ i]) [n..<n + k])\<rparr>)"
proof (induction k arbitrary: n w)
  case 0
  then show ?case by simp
next
  case (Suc k)
  from Suc.prems(1) obtain e where e: "outcomes (api_calls w) = Inl e" "isRateLimitError e"
    by force
  let ?w1 = "w\<lparr>api_calls := Suc (api_calls w),
              slept := slept w @ [RATE_LIMIT_DELAY, BASE_BACKOFF_MS * 2 ^ n]\<rparr>"
  have step: "executeWithRetry (simulated_provider outcomes) n w =
              executeWithRetry (simulated_provider outcomes) (Suc n) ?w1"
    using e Suc.prems(2) by (intro executeWithRetry_simulated_retry) auto
  have rest: "\<forall>j<k. \<exists>e. outcomes (api_calls ?w1 + j) = Inl e \<and> isRateLimitError e"
    using Suc.prems(1) by (auto dest: spec [where x = "Suc _"])
  have "executeWithRetry (simulated_provider outcomes) (Suc n) ?w1 =
        executeWithRetry (simulated_provider outcomes) (Suc n + k)
          (?w1\<lparr>api_calls := api_calls ?w1 + k,
               slept := slept ?w1 @
                 concat (map (\<lambda>i. [RATE_LIMIT_DELAY, BASE_BACKOFF_MS * 2 ^ i]) [Suc n..<Suc n + k])\<rparr>)"
    using Suc.prems(2) by (intro Suc.IH [OF rest]) simp
  moreover have "[n..<Suc (n + k)] = n # [Suc n..<Suc (n + k)]"
    by (simp add: upt_conv_Cons del: upt_Suc)
  ultimately show ?case
    unfolding step by (simp del: upt_Suc)
qed

lemma executeWithRetry_settles:
  assumes "operation (delay RATE_LIMIT_DELAY w) = Some (r, w')"
    and "\<forall>e. r = Inl e \<longrightarrow> \<not> isRateLimitError e"
  shows "executeWithRetry operation n w = Some (r, w')"
  using assms by (subst executeWithRetry.simps) (cases r; simp)

lemma executeWithRetry_retry:
  assumes "operation (delay RATE_LIMIT_DELAY w) = Some (Inl e, w')" "isRateLimitError e"
    and "n < MAX_API_RETRIES"
  shows "executeWithRetry operation n w =
         executeWithRetry operation (Suc n) (delay (BASE_BACKOFF_MS * 2 ^ n) w')"
  using assms by (subst executeWithRetry.simps) simp

lemma executeWithRetry_ceiling:
  assumes "operation (delay RATE_LIMIT_DELAY w) = Some (Inl e, w')" "isRateLimitError e"
    and "MAX_API_RETRIES \<le> n"
  shows "executeWithRetry operation n w =
         Some (Inl (new_Error (''Failed after 3 retries. Last error: '' @ message_text e)), w')"
  using assms by (subst executeWithRetry.simps) (simp add: nat_to_string_MAX)

lemma str_includes_iff:
  "str_includes s sub \<longleftrightarrow> (\<exists>pre post. s = pre @ sub @ post)"
proof (induction s)
  case Nil
  then show ?case by auto
next
  case (Cons c cs)
  have prefix: "take (length sub) (c # cs) = sub \<longleftrightarrow> (\<exists>post. c # cs = sub @ post)"
  proof
    assume "take (length sub) (c # cs) = sub"
    then have "c # cs = sub @ drop (length sub) (c # cs)"
      by (metis append_take_drop_id)
    then show "\<exists>post. c # cs = sub @ post" ..
  next
    assume "\<exists>post. c # cs = sub @ post"
    then obtain post where "c # cs = sub @ post" ..
    then show "take (length sub) (c # cs) = sub" by simp
  qed
  show ?case
  proof
    assume "str_includes (c # cs) sub"
    then consider "take (length sub) (c # cs) = sub" | "str_includes cs sub" by auto
    then show "\<exists>pre post. c # cs = pre @ sub @ post"
    proof cases
      case 1
      with prefix obtain post where "c # cs = [] @ sub @ post" by auto
      then show ?thesis by blast
    next
      case 2
      with Cons.IH obtain pre post where "cs = pre @ sub @ post" by blast
      then have "c # cs = (c # pre) @ sub @ post" by simp
      then show ?thesis by blast
    qed
  next
    assume "\<exists>pre post. c # cs = pre @ sub @ post"
    then obtain pre post where pp: "c # cs = pre @ sub @ post" by blast
    show "str_includes (c # cs) sub"
    proof (cases pre)
      case Nil
      with pp have "\<exists>post. c # cs = sub @ post" by auto
      with prefix have "take (length sub) (c # cs) = sub" by simp
      then show ?thesis by simp
    next
      case (Cons d pre')
      with pp have "cs = pre' @ sub @ post" by simp
      with Cons.IH show ?thesis by auto
    qed
  qed
qed

lemma isRateLimitError_characterisation:
  "isRateLimitError e \<longleftrightarrow>
     (\<exists>c m. e = ErrorObject c m \<and> c \<noteq> CodeAbsent \<and> m \<noteq> MessageAbsent \<and>
        (c = CodeNumber 429 \<or> (\<exists>pre post. m = MessageString (pre @ ''quota'' @ post))))"
proof (cases e)
  case NonObject
  then show ?thesis by simp
next
  case (ErrorObject c m)
  then show ?thesis
    by (cases m) (auto simp: str_includes_iff)
qed

lemma executeWithRetry_simulated_settles:
  assumes "k \<le> MAX_API_RETRIES"
    and "\<forall>j<k. \<exists>e. outcomes (api_calls w + j) = Inl e \<and> isRateLimitError e"
    and "\<forall>e. outcomes (api_calls w + k) = Inl e \<longrightarrow> \<not> isRateLimitError e"
  shows "executeWithRetry (simulated_provider outcomes) 0 w =
         Some (outcomes (api_calls w + k),
          w\<lparr>api_calls := api_calls w + k + 1,
            slept := slept w @
              concat (map (\<lambda>i. [RATE_LIMIT_DELAY, BASE_BACKOFF_MS * 2 ^ i]) [0..<k]) @
              [RATE_LIMIT_DELAY]\<rparr>)"
proof -
  let ?wk = "w\<lparr>api_calls := api_calls w + k,
        slept := slept w @
          concat (map (\<lambda>i. [RATE_LIMIT_DELAY, BASE_BACKOFF_MS * 2 ^ i]) [0..<k])\<rparr>"
  have "executeWithRetry (simulated_provider outcomes) 0 w =
        executeWithRetry (simulated_provider outcomes) k ?wk"
    using executeWithRetry_simulated_prefix [of k outcomes w 0] assms(1,2) by simp
  also have "\<dots> = Some (outcomes (api_calls w + k),
          w\<lparr>api_calls := api_calls w + k + 1,
            slept := slept w @
              concat (map (\<lambda>i. [RATE_LIMIT_DELAY, BASE_BACKOFF_MS * 2 ^ i]) [0..<k]) @
              [RATE_LIMIT_DELAY]\<rparr>)"
    using assms(3)
    by (intro executeWithRetry_settles) (simp_all add: simulated_provider_step delay_def)
  finally show ?thesis .
qed

text \<open>
  Claim C6, as amended. The failures that are retried are exactly those that
  \<open>isRateLimitError\<close> accepts: objects that carry both a \<open>code\<close> and a \<open>message\<close>
  property and whose code is the number 429 or whose message is a string containing
  \<open>quota\<close>. Such a failure is retried while the retry ceiling is not reached, and the
  wait before retry number \<open>n + 1\<close> is \<open>BASE_BACKOFF_MS * 2 ^ n\<close>. Every other failure
  (a thrown value that is not an object, an object that lacks one of the two properties,
  any other code and message) is returned by the attempt on which it occurs, and so is a
  success. Against a provider whose first \<open>k\<close> answers are rate-limit failures and whose
  next answer is not, the executor returns that answer after \<open>k + 1\<close> requests; with
  two rate-limit failures followed by a success it returns the success after 3 requests
  and has waited at least \<open>BASE_BACKOFF_MS + BASE_BACKOFF_MS * 2\<close> in backoff.
\<close>

theorem executeWithRetry_retry_semantics:
  "(isRateLimitError e0 \<longleftrightarrow>
      (\<exists>c m. e0 = ErrorObject c m \<and> c \<noteq> CodeAbsent \<and> m \<noteq> MessageAbsent \<and>
         (c = CodeNumber 429 \<or> (\<exists>pre post. m = MessageString (pre @ ''quota'' @ post))))) \<and>
   (operation (delay RATE_LIMIT_DELAY w) = Some (Inr v0, w') \<longrightarrow>
      executeWithRetry operation n w = Some (Inr v0, w')) \<and>
   (operation (delay RATE_LIMIT_DELAY w) = Some (Inl e, w') \<and> \<not> isRateLimitError e \<longrightarrow>
      executeWithRetry operation n w = Some (Inl e, w')) \<and>
   (operation (delay RATE_LIMIT_DELAY w) = Some (Inl e, w') \<and> isRateLimitError e \<and>
      n < MAX_API_RETRIES \<longrightarrow>
      executeWithRetry operation n w =
      executeWithRetry operation (Suc n) (delay (BASE_BACKOFF_MS * 2 ^ n) w')) \<and>
   (k \<le> MAX_API_RETRIES \<and>
      (\<forall>j<k. \<exists>e. outcomes (api_calls w + j) = Inl e \<and> isRateLimitError e) \<and>
      (\<forall>e. outcomes (api_calls w + k) = Inl e \<longrightarrow> \<not> isRateLimitError e) \<longrightarrow>
      executeWithRetry (simulated_provider outcomes) 0 w =
        Some (outcomes (api_calls w + k),
         w\<lparr>api_calls := api_calls w + k + 1,
           slept := slept w @
             concat (map (\<lambda>i. [RATE_LIMIT_DELAY, BASE_BACKOFF_MS * 2 ^ i]) [0..<k]) @
             [RATE_LIMIT_DELAY]\<rparr>)) \<and>
   (isRateLimitError e1 \<and> isRateLimitError e2 \<and>
      outcomes (api_calls w) = Inl e1 \<and> outcomes (api_calls w + 1) = Inl e2 \<and>
      outcomes (api_calls w + 2) = Inr v \<longrightarrow>
      (\<exists>w2. executeWithRetry (simulated_provider outcomes) 0 w = Some (Inr v, w2) \<and>
         api_calls w2 = api_calls w + 3 \<and>
         slept w2 = slept w @ [RATE_LIMIT_DELAY, BASE_BACKOFF_MS, RATE_LIMIT_DELAY,
                               BASE_BACKOFF_MS * 2, RATE_LIMIT_DELAY] \<and>
         sum_list (slept w) + (BASE_BACKOFF_MS + BASE_BACKOFF_MS * 2) \<le> sum_list (slept w2)))"
proof (intro conjI impI)
  show "isRateLimitError e0 \<longleftrightarrow>
      (\<exists>c m. e0 = ErrorObject c m \<and> c \<noteq> CodeAbsent \<and> m \<noteq> MessageAbsent \<and>
         (c = CodeNumber 429 \<or> (\<exists>pre post. m = MessageString (pre @ ''quota'' @ post))))"
    by (rule isRateLimitError_characterisation)
next
  assume "operation (delay RATE_LIMIT_DELAY w) = Some (Inr v0, w')"
  then show "executeWithRetry operation n w = Some (Inr v0, w')"
    by (intro executeWithRetry_settles) auto
next
  assume "operation (delay RATE_LIMIT_DELAY w) = Some (Inl e, w') \<and> \<not> isRateLimitError e"
  then show "executeWithRetry operation n w = Some (Inl e, w')"
    by (intro executeWithRetry_settles) auto
next
  assume "operation (delay RATE_LIMIT_DELAY w) = Some (Inl e, w') \<and> isRateLimitError e \<and>
      n < MAX_API_RETRIES"
  then show "executeWithRetry operation n w =
      executeWithRetry operation (Suc n) (delay (BASE_BACKOFF_MS * 2 ^ n) w')"
    by (intro executeWithRetry_retry) auto
next
  assume "k \<le> MAX_API_RETRIES \<and>
      (\<forall>j<k. \<exists>e. outcomes (api_calls w + j) = Inl e \<and> isRateLimitError e) \<and>
      (\<forall>e. outcomes (api_calls w + k) = Inl e \<longrightarrow> \<not> isRateLimitError e)"
  then show "executeWithRetry (simulated_provider outcomes) 0 w =
        Some (outcomes (api_calls w + k),
         w\<lparr>api_calls := api_calls w + k + 1,
           slept := slept w @
             concat (map (\<lambda>i. [RATE_LIMIT_DELAY, BASE_BACKOFF_MS * 2 ^ i]) [0..<k]) @
             [RATE_LIMIT_DELAY]\<rparr>)"
    by (intro executeWithRetry_simulated_settles) auto
next
  assume a: "isRateLimitError e1 \<and> isRateLimitError e2 \<and>
      outcomes (api_calls w) = Inl e1 \<and> outcomes (api_calls w + 1) = Inl e2 \<and>
      outcomes (api_calls w + 2) = Inr v"
  have "\<forall>j<2. \<exists>e. outcomes (api_calls w + j) = Inl e \<and> isRateLimitError e"
  proof (intro allI impI)
    fix j :: nat assume "j < 2"
    then have "j = 0 \<or> j = 1" by auto
    with a show "\<exists>e. outcomes (api_calls w + j) = Inl e \<and> isRateLimitError e" by auto
  qed
  then have "executeWithRetry (simulated_provider outcomes) 0 w =
        Some (outcomes (api_calls w + 2),
         w\<lparr>api_calls := api_calls w + 2 + 1,
           slept := slept w @
             concat (map (\<lambda>i. [RATE_LIMIT_DELAY, BASE_BACKOFF_MS * 2 ^ i]) [0..<2]) @
             [RATE_LIMIT_DELAY]\<rparr>)"
    using a by (intro executeWithRetry_simulated_settles) (auto simp: MAX_API_RETRIES_def)
  moreover have "[0..<2] = [0, Suc 0]"
    by (simp add: upt_conv_Cons)
  ultimately show "\<exists>w2. executeWithRetry (simulated_provider outcomes) 0 w = Some (Inr v, w2) \<and>
         api_calls w2 = api_calls w + 3 \<and>
         slept w2 = slept w @ [RATE_LIMIT_DELAY, BASE_BACKOFF_MS, RATE_LIMIT_DELAY,
                               BASE_BACKOFF_MS * 2, RATE_LIMIT_DELAY] \<and>
         sum_list (slept w) + (BASE_BACKOFF_MS + BASE_BACKOFF_MS * 2) \<le> sum_list (slept w2)"
    using a by simp
qed

theorem executeWithRetry_retry_semantics_witness:
  "isRateLimitError (ErrorObject (CodeNumber 403) (MessageString ''User quota exceeded'')) \<and>
   \<not> isRateLimitError NonObject \<and>
   executeWithRetry (simulated_provider (\<lambda>k. Inl (ErrorObject (CodeNumber 500) (MessageString ''Backend Error'')) :: thrown + nat)) 0 world0 =
     Some (Inl (ErrorObject (CodeNumber 500) (MessageString ''Backend Error'')),
           world0\<lparr>api_calls := 1, slept := [100]\<rparr>) \<and>
   executeWithRetry
     (simulated_provider
        (\<lambda>k. if k < 2 then Inl (ErrorObject (CodeNumber 429) (MessageString ''Too Many Requests''))
             else Inr (7::nat))) 0 world0 =
     Some (Inr 7, world0\<lparr>api_calls := 3, slept := [100, 1000, 100, 2000, 100]\<rparr>)"
proof -
  let ?quota = "ErrorObject (CodeNumber 403) (MessageString ''User quota exceeded'')"
  let ?backend = "ErrorObject (CodeNumber 500) (MessageString ''Backend Error'')"
  let ?busy = "ErrorObject (CodeNumber 429) (MessageString ''Too Many Requests'')"
  note classified = executeWithRetry_retry_semantics [THEN conjunct1]
  note propagated = executeWithRetry_retry_semantics
    [THEN conjunct2, THEN conjunct2, THEN conjunct1]
  note settled = executeWithRetry_retry_semantics
    [THEN conjunct2, THEN conjunct2, THEN conjunct2, THEN conjunct2, THEN conjunct1]
  have "isRateLimitError ?quota"
    unfolding classified [of ?quota]
    by (rule exI [of _ "CodeNumber 403"], rule exI [of _ "MessageString ''User quota exceeded''"],
        simp, rule exI [of _ "''User ''"], rule exI [of _ "'' exceeded''"], simp)
  moreover have "\<not> isRateLimitError NonObject"
    unfolding classified [of NonObject] by simp
  moreover have "executeWithRetry (simulated_provider (\<lambda>k. Inl ?backend :: thrown + nat)) 0 world0 =
     Some (Inl ?backend, world0\<lparr>api_calls := 1, slept := [100]\<rparr>)"
    using propagated [of "simulated_provider (\<lambda>k. Inl ?backend :: thrown + nat)"
        world0 ?backend "world0\<lparr>api_calls := 1, slept := [100]\<rparr>" 0]
    by (simp add: world0_def simulated_provider_step delay_def RATE_LIMIT_DELAY_def)
  moreover have "executeWithRetry
     (simulated_provider (\<lambda>k. if k < 2 then Inl ?busy else Inr (7::nat))) 0 world0 =
     Some (Inr 7, world0\<lparr>api_calls := 3, slept := [100, 1000, 100, 2000, 100]\<rparr>)"
    using settled [of 2 "\<lambda>k. if k < 2 then Inl ?busy else Inr (7::nat)" world0]
    by (simp add: world0_def RATE_LIMIT_DELAY_def BASE_BACKOFF_MS_def MAX_API_RETRIES_def
        upt_conv_Cons)
  ultimately show ?thesis by blast
qed

text \<open>
  The claim as stated fails for a failure that has the code 429 but no \<open>message\<close>
  property, and for one whose message names the quota but that has no \<open>code\<close> property:
  neither is retried, although the next request would succeed.
\<close>

theorem executeWithRetry_partial_error_counterexample:
  "executeWithRetry
     (simulated_provider
        (\<lambda>k. if k = 0 then Inl (ErrorObject (CodeNumber 429) MessageAbsent) else Inr (7::nat)))
     0 world0 =
     Some (Inl (ErrorObject (CodeNumber 429) MessageAbsent),
           world0\<lparr>api_calls := 1, slept := [100]\<rparr>) \<and>
   executeWithRetry
     (simulated_provider
        (\<lambda>k. if k = 0 then Inl (ErrorObject CodeAbsent (MessageString ''quota exceeded''))
             else Inr (7::nat)))
     0 world0 =
     Some (Inl (ErrorObject CodeAbsent (MessageString ''quota exceeded'')),
           world0\<lparr>api_calls := 1, slept := [100]\<rparr>)"
  by (simp add: executeWithRetry_settles simulated_provider_step delay_def world0_def
      RATE_LIMIT_DELAY_def)

text \<open>
  Claim C7. Against a provider that answers every request with a rate-limit failure, the
  executor gives up after exactly \<open>MAX_API_RETRIES + 1\<close> requests and raises a new error
  whose message ends with the message of the last failure received; that error is not
  itself classified as a rate-limit failure.
\<close>

theorem executeWithRetry_exhaustion:
  "(\<forall>j\<le>MAX_API_RETRIES. \<exists>e. outcomes (api_calls w + j) = Inl e \<and> isRateLimitError e) \<and>
   outcomes (api_calls w + MAX_API_RETRIES) = Inl e_last \<longrightarrow>
   (\<exists>w2. executeWithRetry (simulated_provider outcomes) 0 w =
      Some (Inl (new_Error (''Failed after 3 retries. Last error: '' @ message_text e_last)), w2) \<and>
      api_calls w2 = api_calls w + (MAX_API_RETRIES + 1) \<and>
      \<not> isRateLimitError
          (new_Error (''Failed after 3 retries. Last error: '' @ message_text e_last)))"
proof (intro impI)
  assume a: "(\<forall>j\<le>MAX_API_RETRIES. \<exists>e. outcomes (api_calls w + j) = Inl e \<and> isRateLimitError e) \<and>
   outcomes (api_calls w + MAX_API_RETRIES) = Inl e_last"
  let ?k = MAX_API_RETRIES
  let ?wk = "w\<lparr>api_calls := api_calls w + ?k,
        slept := slept w @
          concat (map (\<lambda>i. [RATE_LIMIT_DELAY, BASE_BACKOFF_MS * 2 ^ i]) [0..<?k])\<rparr>"
  from a have last: "outcomes (api_calls w + ?k) = Inl e_last" "isRateLimitError e_last"
    by auto
  have "executeWithRetry (simulated_provider outcomes) 0 w =
        executeWithRetry (simulated_provider outcomes) ?k ?wk"
    using executeWithRetry_simulated_prefix [of ?k outcomes w 0] a by simp
  also have "\<dots> = Some (Inl (new_Error (''Failed after 3 retries. Last error: '' @ message_text e_last)),
        delay RATE_LIMIT_DELAY ?wk\<lparr>api_calls := Suc (api_calls w + ?k)\<rparr>)"
    using last by (intro executeWithRetry_ceiling) (simp_all add: simulated_provider_step delay_def)
  finally show "\<exists>w2. executeWithRetry (simulated_provider outcomes) 0 w =
      Some (Inl (new_Error (''Failed after 3 retries. Last error: '' @ message_text e_last)), w2) \<and>
      api_calls w2 = api_calls w + (MAX_API_RETRIES + 1) \<and>
      \<not> isRateLimitError
          (new_Error (''Failed after 3 retries. Last error: '' @ message_text e_last))"
    by (simp add: new_Error_def)
qed

theorem executeWithRetry_exhaustion_witness:
  "\<exists>w2. executeWithRetry
      (simulated_provider
         (\<lambda>k. Inl (ErrorObject (CodeNumber 429) (MessageString ''Quota exhausted'')) :: thrown + nat))
      0 world0 =
      Some (Inl (ErrorObject CodeAbsent
              (MessageString ''Failed after 3 retries. Last error: Quota exhausted'')), w2) \<and>
      api_calls w2 = 4"
  using executeWithRetry_exhaustion [of
      "\<lambda>k. Inl (ErrorObject (CodeNumber 429) (MessageString ''Quota exhausted'')) :: thrown + nat"
      world0 "ErrorObject (CodeNumber 429) (MessageString ''Quota exhausted'')"]
  by (simp add: world0_def MAX_API_RETRIES_def new_Error_def)

section \<open>Properties of paginated fetching\<close>

lemma push_files_Some [simp]: "push_files folders (Some xs) = folders @ xs"
  by (simp add: push_files_def)

lemma getModifiedFolders_pages_complete:
  assumes K: "K = length pages"
    and tok: "\<forall>i<K. truthy_opt (tok (Suc i)) \<longleftrightarrow> Suc i < K"
    and srv: "\<forall>i<K. files_list env
                \<lparr>request_q = q, request_pageToken = tok i, request_driveId = None\<rparr> =
              Inr \<lparr>files = Some (pages ! i), nextPageToken = tok (Suc i)\<rparr>"
    and i: "i < K"
  shows "getModifiedFolders_pages env q (tok i) folders w =
         Some (Inr (folders @ concat (drop i pages)), w\<lparr>api_calls := api_calls w + (K - i)\<rparr>)"
  using i
proof (induction "K - i" arbitrary: i folders w)
  case 0
  then show ?case by simp
next
  case (Suc n)
  have resp: "files_list env \<lparr>request_q = q, request_pageToken = tok i, request_driveId = None\<rparr> =
              Inr \<lparr>files = Some (pages ! i), nextPageToken = tok (Suc i)\<rparr>"
    using srv Suc.prems by simp
  have dr: "drop i pages = pages ! i # drop (Suc i) pages"
    using Suc.prems K by (simp add: Cons_nth_drop_Suc)
  show ?case
  proof (cases "Suc i < K")
    case True
    then have t: "truthy_opt (tok (Suc i))"
      using tok Suc.prems by simp
    have "n = K - Suc i" using Suc.hyps(2) by simp
    from Suc.hyps(1) [OF this True] have
      "getModifiedFolders_pages env q (tok (Suc i)) (folders @ pages ! i)
         (w\<lparr>api_calls := Suc (api_calls w)\<rparr>) =
       Some (Inr ((folders @ pages ! i) @ concat (drop (Suc i) pages)),
             w\<lparr>api_calls := Suc (api_calls w)\<rparr>
              \<lparr>api_calls := api_calls (w\<lparr>api_calls := Suc (api_calls w)\<rparr>) + (K - Suc i)\<rparr>)" .
    with t resp True show ?thesis
      by (subst getModifiedFolders_pages.simps) (simp add: remote_call_def dr)
  next
    case False
    then have t: "\<not> truthy_opt (tok (Suc i))"
      using tok Suc.prems by simp
    from False Suc.prems have "K - i = 1" "drop (Suc i) pages = []"
      using K by simp_all
    with t resp show ?thesis
      by (subst getModifiedFolders_pages.simps) (simp add: remote_call_def dr)
  qed
qed

lemma fetchFoldersForParent_pages_complete:
  assumes K: "K = length pages"
    and tok: "\<forall>i<K. truthy_opt (tok (Suc i)) \<longleftrightarrow> Suc i < K"
    and srv: "\<forall>i<K. files_list env
                \<lparr>request_q = buildQuery parentId driveId, request_pageToken = tok i,
                 request_driveId = (if driveId \<noteq> ''root'' then Some driveId else None)\<rparr> =
              Inr \<lparr>files = Some (pages ! i), nextPageToken = tok (Suc i)\<rparr>"
    and i: "i < K"
  shows "fetchFoldersForParent_pages env parentId driveId (tok i) folders w =
         Some (Inr (folders @ concat (drop i pages)),
               w\<lparr>api_calls := api_calls w + (K - i),
                 slept := slept w @ replicate (K - i) RATE_LIMIT_DELAY\<rparr>)"
  using i
proof (induction "K - i" arbitrary: i folders w)
  case 0
  then show ?case by simp
next
  case (Suc n)
  have resp: "files_list env
                \<lparr>request_q = buildQuery parentId driveId, request_pageToken = tok i,
                 request_driveId = (if driveId \<noteq> ''root'' then Some driveId else None)\<rparr> =
              Inr \<lparr>files = Some (pages ! i), nextPageToken = tok (Suc i)\<rparr>"
    using srv Suc.prems by simp
  have call: "executeWithRetry (remote_call (files_list env
                \<lparr>request_q = buildQuery parentId driveId, request_pageToken = tok i,
                 request_driveId = (if driveId \<noteq> ''root'' then Some driveId else None)\<rparr>)) 0 w =
              Some (Inr \<lparr>files = Some (pages ! i), nextPageToken = tok (Suc i)\<rparr>,
                    w\<lparr>api_calls := Suc (api_calls w), slept := slept w @ [RATE_LIMIT_DELAY]\<rparr>)"
    unfolding resp by (simp add: executeWithRetry_remote_call_settles)
  have dr: "drop i pages = pages ! i # drop (Suc i) pages"
    using Suc.prems K by (simp add: Cons_nth_drop_Suc)
  show ?case
  proof (cases "Suc i < K")
    case True
    then have t: "truthy_opt (tok (Suc i))"
      using tok Suc.prems by simp
    have n: "n = K - Suc i" using Suc.hyps(2) by simp
    have r: "replicate (K - i) RATE_LIMIT_DELAY =
             RATE_LIMIT_DELAY # replicate (K - Suc i) RATE_LIMIT_DELAY"
      using True by (simp add: Suc_diff_Suc flip: replicate_Suc)
    from Suc.hyps(1) [OF n True] t call True show ?thesis
      by (subst fetchFoldersForParent_pages.simps) (simp add: dr r)
  next
    case False
    then have t: "\<not> truthy_opt (tok (Suc i))"
      using tok Suc.prems by simp
    from False Suc.prems have "K - i = 1" "drop (Suc i) pages = []"
      using K by simp_all
    with t call show ?thesis
      by (subst fetchFoldersForParent_pages.simps) (simp add: dr)
  qed
qed

text \<open>
  Claim C5. Let a listing be served in \<open>K\<close> pages: the request without a page token is
  answered with page 0, every page but the last comes with a (non-empty) token for the
  next one, and the last page comes with none. Then \<open>getModifiedFolders\<close> returns the
  folders of all pages in page order after exactly \<open>K\<close> requests, and so does
  \<open>fetchFoldersForParent\<close>, which in addition gives a folder without a drive id the id of
  the root drive. The number of folders returned is the sum of the page sizes.
\<close>

theorem pagination_complete:
  "K = length pages \<and> 0 < K \<and> tok 0 = None \<and>
   (\<forall>i<K. truthy_opt (tok (Suc i)) \<longleftrightarrow> Suc i < K) \<and>
   (\<forall>i<K. \<forall>q d. files_list env
       \<lparr>request_q = q, request_pageToken = tok i, request_driveId = d\<rparr> =
     Inr \<lparr>files = Some (pages ! i), nextPageToken = tok (Suc i)\<rparr>) \<longrightarrow>
   getModifiedFolders env lastSyncTime w =
     Some (Inr (concat pages), w\<lparr>api_calls := api_calls w + K\<rparr>) \<and>
   fetchFoldersForParent env rootDriveId parentId driveId w =
     Some (Inr (map (default_driveId rootDriveId) (concat pages)),
           w\<lparr>api_calls := api_calls w + K,
             slept := slept w @ replicate K RATE_LIMIT_DELAY\<rparr>) \<and>
   map folder_id (map (default_driveId rootDriveId) (concat pages)) =
     map folder_id (concat pages) \<and>
   length (concat pages) = sum_list (map length pages)"
proof (intro impI)
  assume a: "K = length pages \<and> 0 < K \<and> tok 0 = None \<and>
   (\<forall>i<K. truthy_opt (tok (Suc i)) \<longleftrightarrow> Suc i < K) \<and>
   (\<forall>i<K. \<forall>q d. files_list env
       \<lparr>request_q = q, request_pageToken = tok i, request_driveId = d\<rparr> =
     Inr \<lparr>files = Some (pages ! i), nextPageToken = tok (Suc i)\<rparr>)"
  then have K: "K = length pages" and pos: "0 < K" and t0: "tok 0 = None"
    and tok: "\<forall>i<K. truthy_opt (tok (Suc i)) \<longleftrightarrow> Suc i < K"
    and srv: "\<And>q d. \<forall>i<K. files_list env
       \<lparr>request_q = q, request_pageToken = tok i, request_driveId = d\<rparr> =
     Inr \<lparr>files = Some (pages ! i), nextPageToken = tok (Suc i)\<rparr>"
    by blast+
  have m: "getModifiedFolders env lastSyncTime w =
     Some (Inr (concat pages), w\<lparr>api_calls := api_calls w + K\<rparr>)"
    unfolding getModifiedFolders_def
    using getModifiedFolders_pages_complete [OF K tok srv pos, of _ "[]" w] t0 by simp
  have "fetchFoldersForParent_pages env parentId driveId None [] w =
     Some (Inr (concat pages),
           w\<lparr>api_calls := api_calls w + K,
             slept := slept w @ replicate K RATE_LIMIT_DELAY\<rparr>)"
    using fetchFoldersForParent_pages_complete [OF K tok srv pos, of parentId driveId "[]" w] t0
    by simp
  then have f: "fetchFoldersForParent env rootDriveId parentId driveId w =
     Some (Inr (map (default_driveId rootDriveId) (concat pages)),
           w\<lparr>api_calls := api_calls w + K,
             slept := slept w @ replicate K RATE_LIMIT_DELAY\<rparr>)"
    by (simp add: fetchFoldersForParent_def)
  have i: "map folder_id (map (default_driveId rootDriveId) (concat pages)) =
     map folder_id (concat pages)"
    by (simp add: default_driveId_def)
  have l: "length (concat pages) = sum_list (map length pages)"
    by (simp add: length_concat)
  from m f i l show "getModifiedFolders env lastSyncTime w =
     Some (Inr (concat pages), w\<lparr>api_calls := api_calls w + K\<rparr>) \<and>
   fetchFoldersForParent env rootDriveId parentId driveId w =
     Some (Inr (map (default_driveId rootDriveId) (concat pages)),
           w\<lparr>api_calls := api_calls w + K,
             slept := slept w @ replicate K RATE_LIMIT_DELAY\<rparr>) \<and>
   map folder_id (map (default_driveId rootDriveId) (concat pages)) =
     map folder_id (concat pages) \<and>
   length (concat pages) = sum_list (map length pages)"
    by simp
qed

theorem pagination_complete_witness:
  "getModifiedFolders paged_env 0 world0 =
     Some (Inr [remote_folder ''f1'' None, remote_folder ''f2'' None, remote_folder ''f3'' None],
           world0\<lparr>api_calls := 3\<rparr>) \<and>
   fetchFoldersForParent paged_env ''root-id'' None ''root'' world0 =
     Some (Inr (map (default_driveId ''root-id'')
                  [remote_folder ''f1'' None, remote_folder ''f2'' None, remote_folder ''f3'' None]),
           world0\<lparr>api_calls := 3, slept := [100, 100, 100]\<rparr>)"
  using pagination_complete [of 3
      "[[remote_folder ''f1'' None, remote_folder ''f2'' None], [], [remote_folder ''f3'' None]]"
      "\<lambda>i. if i = 0 then None else if i = 1 then Some ''t1''
           else if i = 2 then Some ''t2'' else None"
      paged_env 0 world0 "''root-id''" None "''root''"]
  by (simp add: All_less_Suc eval_nat_numeral paged_env_def env0_def truthy_opt_def truthy_def
      world0_def RATE_LIMIT_DELAY_def)

section \<open>Properties of permission deduplication\<close>

lemma map_of_map_set: "map_of (map_set k v m) = (map_of m)(k \<mapsto> v)"
  by (induction m) (auto simp: fun_eq_iff)

lemma keys_map_set: "fst ` set (map_set k v m) = insert k (fst ` set m)"
  by (induction m) auto

lemma distinct_map_set: "distinct (map fst m) \<Longrightarrow> distinct (map fst (map_set k v m))"
  by (induction m) (auto simp: keys_map_set)

lemma map_of_fold_map_set:
  "map_of (fold (\<lambda>e m. map_set (fst e) (snd e) m) es m0) k =
     (case find (\<lambda>e. fst e = k) (rev es) of Some e \<Rightarrow> Some (snd e) | None \<Rightarrow> map_of m0 k)"
  by (induction es rule: rev_induct) (simp_all add: map_of_map_set)

lemma keys_fold_map_set:
  "fst ` set (fold (\<lambda>e m. map_set (fst e) (snd e) m) es m0) = fst ` set es \<union> fst ` set m0"
  by (induction es rule: rev_induct) (auto simp: keys_map_set)

lemma distinct_fold_map_set:
  "distinct (map fst m0) \<Longrightarrow> distinct (map fst (fold (\<lambda>e m. map_set (fst e) (snd e) m) es m0))"
  by (induction es rule: rev_induct) (simp_all add: distinct_map_set)

lemma map_of_new_Map:
  "map_of (new_Map es) k = (case find (\<lambda>e. fst e = k) (rev es) of Some e \<Rightarrow> Some (snd e) | None \<Rightarrow> None)"
  by (simp add: new_Map_def map_of_fold_map_set split: option.splits)

lemma keys_new_Map: "fst ` set (new_Map es) = fst ` set es"
  by (simp add: new_Map_def keys_fold_map_set)

lemma distinct_new_Map: "distinct (map fst (new_Map es))"
  by (simp add: new_Map_def distinct_fold_map_set)

lemma new_Map_entry:
  assumes "(k, v) \<in> set (new_Map es)"
  shows "find (\<lambda>e. fst e = k) (rev es) = Some (k, v)"
proof -
  from assms have "map_of (new_Map es) k = Some v"
    using distinct_new_Map [of es] by simp
  then obtain e where e: "find (\<lambda>e. fst e = k) (rev es) = Some e" "snd e = v"
    by (auto simp: map_of_new_Map split: option.splits)
  then have "fst e = k" by (auto dest: find_SomeD)
  with e show ?thesis by (cases e) simp
qed

lemma allPermissions_concat:
  "allPermissions folders =
     concat (map (\<lambda>folder. case permissions folder of None \<Rightarrow> [] | Some ps \<Rightarrow> ps) folders)"
proof -
  have "fold (\<lambda>folder accumulator.
             case permissions folder of
               None \<Rightarrow> accumulator
             | Some ps \<Rightarrow> if ps \<noteq> [] then accumulator @ ps else accumulator) folders acc =
        acc @ concat (map (\<lambda>folder. case permissions folder of None \<Rightarrow> [] | Some ps \<Rightarrow> ps) folders)"
    for acc
    by (induction folders arbitrary: acc) (auto split: option.splits)
  then show ?thesis by (simp add: allPermissions_def)
qed

lemma uniquePermissions_ids_distinct: "distinct (map entry_id (uniquePermissions folders))"
proof -
  have "map entry_id (uniquePermissions folders) =
        map fst (new_Map (map (\<lambda>permission. (entry_id permission, permission)) (allPermissions folders)))"
  proof -
    have "\<forall>e \<in> set (new_Map (map (\<lambda>permission. (entry_id permission, permission))
                              (allPermissions folders))). entry_id (snd e) = fst e"
    proof
      fix e assume "e \<in> set (new_Map (map (\<lambda>permission. (entry_id permission, permission))
                              (allPermissions folders)))"
      then have "find (\<lambda>x. fst x = fst e)
                   (rev (map (\<lambda>permission. (entry_id permission, permission)) (allPermissions folders))) =
                 Some e"
        using new_Map_entry [of "fst e" "snd e"] by simp
      then have "e \<in> set (map (\<lambda>permission. (entry_id permission, permission)) (allPermissions folders))"
        by (auto dest: find_SomeD)
      then show "entry_id (snd e) = fst e" by auto
    qed
    then show ?thesis by (simp add: uniquePermissions_def)
  qed
  then show ?thesis by (simp add: distinct_new_Map)
qed

lemma uniquePermissions_ids:
  "set (map entry_id (uniquePermissions folders)) = set (map entry_id (allPermissions folders))"
proof -
  let ?es = "map (\<lambda>permission. (entry_id permission, permission)) (allPermissions folders)"
  have e: "\<forall>e \<in> set (new_Map ?es). entry_id (snd e) = fst e"
  proof
    fix e assume "e \<in> set (new_Map ?es)"
    then have "find (\<lambda>x. fst x = fst e) (rev ?es) = Some e"
      using new_Map_entry [of "fst e" "snd e"] by simp
    then have "e \<in> set ?es" by (auto dest: find_SomeD)
    then show "entry_id (snd e) = fst e" by auto
  qed
  then have "entry_id ` snd ` set (new_Map ?es) = fst ` set (new_Map ?es)"
    by (auto simp: image_iff) (metis fst_conv snd_conv)+
  also have "\<dots> = fst ` set ?es" by (rule keys_new_Map)
  finally show ?thesis
    by (simp add: uniquePermissions_def image_image)
qed

lemma uniquePermissions_last:
  assumes "p \<in> set (uniquePermissions folders)"
  shows "find (\<lambda>q. entry_id q = entry_id p) (rev (allPermissions folders)) = Some p"
proof -
  let ?es = "map (\<lambda>permission. (entry_id permission, permission)) (allPermissions folders)"
  from assms obtain k where k: "(k, p) \<in> set (new_Map ?es)"
    by (auto simp: uniquePermissions_def)
  then have f: "find (\<lambda>e. fst e = k) (rev ?es) = Some (k, p)"
    by (rule new_Map_entry)
  then have "(k, p) \<in> set ?es" by (auto dest: find_SomeD)
  then have kp: "k = entry_id p" by auto
  have "find (\<lambda>e. fst e = k) (map (\<lambda>permission. (entry_id permission, permission)) xs) =
        map_option (\<lambda>permission. (entry_id permission, permission)) (find (\<lambda>q. entry_id q = k) xs)"
    for xs
    by (induction xs) auto
  from this [of "rev (allPermissions folders)"] f kp show ?thesis
    by (auto simp: rev_map)
qed

lemma distinct_map_filter_eq_length:
  assumes "distinct (map f xs)" "x \<in> set xs"
  shows "length (filter (\<lambda>y. f y = f x) xs) = 1"
  using assms
proof (induction xs)
  case Nil
  then show ?case by simp
next
  case (Cons a xs)
  show ?case
  proof (cases "f a = f x")
    case True
    with Cons.prems have "\<forall>y \<in> set xs. f y \<noteq> f x"
      by (auto simp: image_iff)
    then have "filter (\<lambda>y. f y = f x) xs = []"
      by (simp add: filter_empty_conv)
    with True show ?thesis by simp
  next
    case False
    with Cons show ?thesis by auto
  qed
qed

lemma uniquePermissions_exactly_one:
  assumes "p \<in> set (allPermissions folders)"
  shows "length (filter (\<lambda>q. entry_id q = entry_id p) (uniquePermissions folders)) = 1"
proof -
  from assms have "entry_id p \<in> set (map entry_id (uniquePermissions folders))"
    unfolding uniquePermissions_ids by simp
  then obtain u where u: "u \<in> set (uniquePermissions folders)" "entry_id u = entry_id p"
    by auto
  from distinct_map_filter_eq_length [OF uniquePermissions_ids_distinct u(1)] u(2)
  show ?thesis by simp
qed

lemma map_get_permissionIdMap:
  "map_get (permissionIdMap synced) key =
     (case key of
        None \<Rightarrow> None
      | Some r \<Rightarrow>
          map_option id_fs_permission (find (\<lambda>s. permission_remote_id s = r) (rev synced)))"
proof -
  have "find (\<lambda>e. fst e = r)
          (map (\<lambda>permission. (permission_remote_id permission, id_fs_permission permission)) xs) =
        map_option (\<lambda>permission. (permission_remote_id permission, id_fs_permission permission))
          (find (\<lambda>s. permission_remote_id s = r) xs)" for r xs
    by (induction xs) auto
  from this [of _ "rev synced"] show ?thesis
    by (auto simp: map_get_def permissionIdMap_def map_of_new_Map rev_map split: option.splits)
qed

lemma relink_permissions:
  assumes "permissions folder = Some ps"
  shows "permissions (relink (permissionIdMap synced) folder) =
         Some (concat (map (\<lambda>permission.
            case entry_id permission of
              None \<Rightarrow> []
            | Some r \<Rightarrow>
                (case find (\<lambda>s. permission_remote_id s = r) (rev synced) of
                   None \<Rightarrow> []
                 | Some s \<Rightarrow> [Linked (id_fs_permission s)])) ps))"
proof -
  have "map Linked (List.map_filter (\<lambda>permission. map_get (permissionIdMap synced) (entry_id permission)) xs) =
        concat (map (\<lambda>permission.
            case entry_id permission of
              None \<Rightarrow> []
            | Some r \<Rightarrow>
                (case find (\<lambda>s. permission_remote_id s = r) (rev synced) of
                   None \<Rightarrow> []
                 | Some s \<Rightarrow> [Linked (id_fs_permission s)])) xs)" for xs
    by (induction xs)
       (auto simp: List.map_filter_simps map_get_permissionIdMap split: option.splits)
  with assms show ?thesis
    by (cases "ps = []") (simp_all add: relink_def)
qed

text \<open>
  Claim C8. The permissions embedded in the folders of a batch are collected in batch
  order; \<open>uniquePermissions\<close>, the list handed to ingestion, holds for every permission id
  of the batch exactly one permission, namely the last one of the batch with that id.
  When ingestion returns \<open>synced\<close>, every folder's list is rewritten: each reference is
  replaced by the internal id that \<open>synced\<close> gives for its remote id, the same for all
  folders, and a reference whose remote id \<open>synced\<close> does not hold is dropped; no error
  is raised.
\<close>

theorem ingestPermissionsForFolders_dedup_relink:
  "allPermissions folders =
     concat (map (\<lambda>folder. case permissions folder of None \<Rightarrow> [] | Some ps \<Rightarrow> ps) folders) \<and>
   distinct (map entry_id (uniquePermissions folders)) \<and>
   (p \<in> set (allPermissions folders) \<longrightarrow>
      length (filter (\<lambda>q. entry_id q = entry_id p) (uniquePermissions folders)) = 1) \<and>
   (u \<in> set (uniquePermissions folders) \<longrightarrow>
      find (\<lambda>q. entry_id q = entry_id u) (rev (allPermissions folders)) = Some u) \<and>
   (allPermissions folders \<noteq> [] \<and>
    ingest env (uniquePermissions folders) connectionId (db w) = (Inr synced, d) \<longrightarrow>
      (\<exists>w'. ingestPermissionsForFolders env folders connectionId w =
              Some (Inr (map (relink (permissionIdMap synced)) folders), w') \<and> db w' = d)) \<and>
   (permissions folder = Some ps \<longrightarrow>
      permissions (relink (permissionIdMap synced) folder) =
        Some (concat (map (\<lambda>permission.
           case entry_id permission of
             None \<Rightarrow> []
           | Some r \<Rightarrow>
               (case find (\<lambda>s. permission_remote_id s = r) (rev synced) of
                  None \<Rightarrow> []
                | Some s \<Rightarrow> [Linked (id_fs_permission s)])) ps)))"
proof (intro conjI impI)
  show "allPermissions folders =
     concat (map (\<lambda>folder. case permissions folder of None \<Rightarrow> [] | Some ps \<Rightarrow> ps) folders)"
    by (rule allPermissions_concat)
next
  show "distinct (map entry_id (uniquePermissions folders))"
    by (rule uniquePermissions_ids_distinct)
next
  assume "p \<in> set (allPermissions folders)"
  then show "length (filter (\<lambda>q. entry_id q = entry_id p) (uniquePermissions folders)) = 1"
    by (rule uniquePermissions_exactly_one)
next
  assume "u \<in> set (uniquePermissions folders)"
  then show "find (\<lambda>q. entry_id q = entry_id u) (rev (allPermissions folders)) = Some u"
    by (rule uniquePermissions_last)
next
  assume a: "allPermissions folders \<noteq> [] \<and>
    ingest env (uniquePermissions folders) connectionId (db w) = (Inr synced, d)"
  then have "folders \<noteq> []"
    by (auto simp: allPermissions_def)
  with a show "\<exists>w'. ingestPermissionsForFolders env folders connectionId w =
              Some (Inr (map (relink (permissionIdMap synced)) folders), w') \<and> db w' = d"
    by (simp add: ingestPermissionsForFolders_def ingestData_def logger_def)
next
  assume "permissions folder = Some ps"
  then show "permissions (relink (permissionIdMap synced) folder) =
        Some (concat (map (\<lambda>permission.
           case entry_id permission of
             None \<Rightarrow> []
           | Some r \<Rightarrow>
               (case find (\<lambda>s. permission_remote_id s = r) (rev synced) of
                  None \<Rightarrow> []
                | Some s \<Rightarrow> [Linked (id_fs_permission s)])) ps))"
    by (rule relink_permissions)
qed

lemma shared_folders_unique:
  "uniquePermissions shared_folders =
     [Embedded \<lparr>permission_id = ''perm-1'', permission_role = ''writer''\<rparr>,
      Embedded \<lparr>permission_id = ''perm-2'', permission_role = ''owner''\<rparr>]"
  by (simp add: uniquePermissions_def allPermissions_def shared_folders_def remote_folder_def
      new_Map_def)

theorem ingestPermissionsForFolders_dedup_relink_witness:
  "uniquePermissions shared_folders =
     [Embedded \<lparr>permission_id = ''perm-1'', permission_role = ''writer''\<rparr>,
      Embedded \<lparr>permission_id = ''perm-2'', permission_role = ''owner''\<rparr>] \<and>
   (\<exists>w'. ingestPermissionsForFolders ingesting_env shared_folders ''c1'' world0 =
      Some (Inr [(remote_folder ''a'' None)\<lparr>permissions := Some [Linked ''int-1'']\<rparr>,
                 (remote_folder ''b'' None)\<lparr>permissions := Some [Linked ''int-1'']\<rparr>], w'))"
proof -
  let ?synced = "[\<lparr>id_fs_permission = ''int-1'', permission_remote_id = ''perm-1'',
          permission_connection = ''c1''\<rparr>]"
  have nonempty: "allPermissions shared_folders \<noteq> []"
    by (simp add: allPermissions_def shared_folders_def remote_folder_def)
  have ingested: "ingest ingesting_env (uniquePermissions shared_folders) ''c1'' (db world0) =
        (Inr ?synced, db world0)"
    by (simp add: ingesting_env_def env0_def)
  have "\<exists>w'. ingestPermissionsForFolders ingesting_env shared_folders ''c1'' world0 =
          Some (Inr (map (relink (permissionIdMap ?synced)) shared_folders), w') \<and>
          db w' = db world0"
    using ingestPermissionsForFolders_dedup_relink [of shared_folders _ _ ingesting_env
        "''c1''" world0 ?synced "db world0"] nonempty ingested
    by blast
  moreover have "map (relink (permissionIdMap ?synced)) shared_folders =
      [(remote_folder ''a'' None)\<lparr>permissions := Some [Linked ''int-1'']\<rparr>,
       (remote_folder ''b'' None)\<lparr>permissions := Some [Linked ''int-1'']\<rparr>]"
    by (simp add: shared_folders_def remote_folder_def relink_def permissionIdMap_def
        new_Map_def map_get_def List.map_filter_simps)
  ultimately show ?thesis
    using shared_folders_unique by auto
qed

section \<open>Properties of hierarchy resolution\<close>

subsection \<open>Invariants of the interleaved walks\<close>

lemma fold_step_task_invariant:
  assumes "\<And>i st. P st \<Longrightarrow> P (step_task ctx remote_folders i st)" "P st"
  shows "P (fold (step_task ctx remote_folders) xs st)"
  using assms(2) by (induction xs arbitrary: st) (simp_all add: assms(1))

lemma drain_unfold_None:
  "next_active (tasks st) = None \<Longrightarrow> drain ctx remote_folders st = st"
  by (subst drain.simps) simp

lemma drain_unfold_Some:
  "next_active (tasks st) = Some i \<Longrightarrow>
   drain ctx remote_folders st = drain ctx remote_folders (step_task ctx remote_folders i st)"
  by (subst drain.simps) simp

lemma drain_invariant:
  assumes "\<And>i st. P st \<Longrightarrow> P (step_task ctx remote_folders i st)" "P st"
  shows "P (drain ctx remote_folders st)"
  using assms
proof (induction ctx remote_folders st rule: drain.induct)
  case (1 ctx remote_folders st)
  show ?case
  proof (cases "next_active (tasks st)")
    case None
    with "1.prems" show ?thesis by (simp add: drain_unfold_None)
  next
    case (Some i)
    have "P (step_task ctx remote_folders i st)"
      using "1.prems" by simp
    then have "P (drain ctx remote_folders (step_task ctx remote_folders i st))"
      using "1.prems"(1) by (intro "1.IH" [OF Some]) simp_all
    with Some show ?thesis by (simp add: drain_unfold_Some)
  qed
qed


lemma next_active_None: "next_active ts = None \<longleftrightarrow> (\<forall>ft \<in> set ts. \<not> active (snd ft))"
  by (induction ts) auto

lemma step_task_length: "length (tasks (step_task ctx remote_folders i st)) = length (tasks st)"
proof (cases "i < length (tasks st)")
  case False
  then show ?thesis by (simp add: step_task_def)
next
  case True
  obtain folder t where ft: "tasks st ! i = (folder, t)" by (cases "tasks st ! i")
  show ?thesis
  proof (cases t)
    case (Walk current visitedIds)
    obtain t' st' where g:
      "getInternalParentRecursive ctx remote_folders current visitedIds st = (t', st')"
      by (cases "getInternalParentRecursive ctx remote_folders current visitedIds st")
    with True ft Walk getInternalParentRecursive_tasks [OF g] show ?thesis
      by (simp add: step_task_def)
  next
    case (Resolved r)
    with True ft show ?thesis
      by (simp add: step_task_def Let_def record_resolved_tasks)
  qed (use True ft in \<open>simp_all add: step_task_def\<close>)
qed

text \<open>How one step changes the state, case by case.\<close>

lemma step_task_cases:
  obtains
    (idle) "step_task ctx remote_folders i st = st"
  | (walk) folder current visitedIds t st' where
      "i < length (tasks st)" "tasks st ! i = (folder, Walk current visitedIds)"
      "getInternalParentRecursive ctx remote_folders current visitedIds st = (t, st')"
      "step_task ctx remote_folders i st = st'\<lparr>tasks := (tasks st)[i := (folder, t)]\<rparr>"
  | (finish) folder r where
      "i < length (tasks st)" "tasks st ! i = (folder, Resolved r)"
      "step_task ctx remote_folders i st =
         (record_resolved ctx folder r st)\<lparr>tasks := (tasks st)[i := (folder, Finished)]\<rparr>"
proof (cases "i < length (tasks st)")
  case False
  then show ?thesis by (intro idle) (simp add: step_task_def)
next
  case True
  obtain folder t where ft: "tasks st ! i = (folder, t)" by (cases "tasks st ! i")
  show ?thesis
  proof (cases t)
    case (Walk current visitedIds)
    obtain t' st' where g:
      "getInternalParentRecursive ctx remote_folders current visitedIds st = (t', st')"
      by (cases "getInternalParentRecursive ctx remote_folders current visitedIds st")
    with True ft Walk getInternalParentRecursive_tasks [OF g] show ?thesis
      by (intro walk [of folder current visitedIds t' st']) (simp_all add: step_task_def)
  next
    case (Resolved r)
    with True ft show ?thesis
      by (intro finish [of folder r]) (simp_all add: step_task_def Let_def record_resolved_tasks)
  next
    case Finished
    with True ft show ?thesis by (intro idle) (simp add: step_task_def)
  next
    case Hung
    with True ft show ?thesis by (intro idle) (simp add: step_task_def)
  qed
qed

lemma getInternalParentRecursive_not_Hung:
  assumes "getInternalParentRecursive ctx remote_folders folder visitedIds st = (t, st')"
  shows "t \<noteq> Hung"
  using assms
proof (cases rule: getInternalParentRecursive_cases)
  case (fetched r cache out)
  then show ?thesis
    using executeWithRetry_remote_call_Some
      [of "drive_files_get (ctx_env ctx) (remote_parent_id folder)" 0 "rworld st"]
    by (auto split: option.splits sum.splits)
qed auto

lemma getInternalParentRecursive_foldersToSync:
  assumes "getInternalParentRecursive ctx remote_folders folder visitedIds st = (t, st')"
  shows "foldersToSync st' = foldersToSync st \<and>
         folderIdToInternalIdMap st' = folderIdToInternalIdMap st"
  using assms
  by (cases rule: getInternalParentRecursive_cases) (auto split: option.splits sum.splits)

lemma step_task_hung_free:
  assumes "hung_free st"
  shows "hung_free (step_task ctx remote_folders i st)"
proof (cases rule: step_task_cases [of ctx remote_folders i st])
  case idle
  with assms show ?thesis by simp
next
  case (walk folder current visitedIds t st')
  from walk(3) have "t \<noteq> Hung" by (rule getInternalParentRecursive_not_Hung)
  with assms walk show ?thesis
    by (auto simp: hung_free_def dest!: set_update_subset_insert [THEN subsetD])
next
  case (finish folder r)
  with assms show ?thesis
    by (auto simp: hung_free_def dest!: set_update_subset_insert [THEN subsetD])
qed

lemma step_task_foldersToSync_mono:
  "set (foldersToSync st) \<subseteq> set (foldersToSync (step_task ctx remote_folders i st))"
proof (cases rule: step_task_cases [of ctx remote_folders i st])
  case idle
  then show ?thesis by simp
next
  case (walk folder current visitedIds t st')
  with getInternalParentRecursive_foldersToSync [OF walk(3)] show ?thesis by simp
next
  case (finish folder r)
  then show ?thesis
    by (auto simp: record_resolved_def split: prod.splits)
qed

lemma handleUnresolvedFolders_total:
  assumes "hung_free st" 
  shows "\<exists>st'. handleUnresolvedFolders ctx schedule pending remote_folders st = Some st' \<and>
           set (foldersToSync st) \<subseteq> set (foldersToSync st')"
proof -
  define P where "P s \<longleftrightarrow> hung_free s \<and> set (foldersToSync st) \<subseteq> set (foldersToSync s)" for s
  have step: "P (step_task ctx remote_folders i s)" if "P s" for i s
    using that step_task_hung_free [of s ctx remote_folders i]
      step_task_foldersToSync_mono [of s ctx remote_folders i]
    by (auto simp: P_def)
  let ?st0 = "st\<lparr>rworld := logger LogWarn
                   (''Found '' @ nat_to_string (length pending) @
                    '' unresolved folders. Resolving them...'') (rworld st),
                 tasks := map (\<lambda>folder. (folder, Walk folder [])) pending\<rparr>"
  have "P ?st0" by (auto simp: P_def hung_free_def)
  then have "P (fold (step_task ctx remote_folders) [0..<length pending] ?st0)"
    by (rule fold_step_task_invariant [rotated]) (rule step)
  then have "P (fold (step_task ctx remote_folders) schedule
                 (fold (step_task ctx remote_folders) [0..<length pending] ?st0))"
    by (rule fold_step_task_invariant [rotated]) (rule step)
  then have "P (drain ctx remote_folders (fold (step_task ctx remote_folders) schedule
                 (fold (step_task ctx remote_folders) [0..<length pending] ?st0)))"
    by (rule drain_invariant [rotated]) (rule step)
  then show ?thesis
    by (auto simp: handleUnresolvedFolders_def Let_def P_def hung_free_def list_ex_iff)
qed

subsection \<open>The pass loop always ends\<close>

lemma processFolders_pass_frame:
  "processFolders_pass ctx remaining pending st = (pending', st') \<Longrightarrow>
   tasks st' = tasks st \<and> set (foldersToSync st) \<subseteq> set (foldersToSync st')"
proof (induction remaining arbitrary: pending st)
  case Nil
  then show ?case by simp
next
  case (Cons folder rest)
  obtain r cache where rc:
    "resolveParentId (remote_parent_id folder) (folderIdToInternalIdMap st)
       (ctx_driveIds ctx) (ctx_connectionId ctx) (parentLookupCache st) (db (rworld st)) = (r, cache)"
    by (cases "resolveParentId (remote_parent_id folder) (folderIdToInternalIdMap st)
       (ctx_driveIds ctx) (ctx_connectionId ctx) (parentLookupCache st) (db (rworld st))")
  show ?case
  proof (cases "truthy_opt r")
    case False
    with Cons.prems rc have
      "processFolders_pass ctx rest (pending @ [folder]) (st\<lparr>parentLookupCache := cache\<rparr>) =
       (pending', st')"
      by (auto simp: truthy_opt_def split: option.splits if_splits)
    from Cons.IH [OF this] show ?thesis by simp
  next
    case True
    then obtain p where p: "r = Some p" "truthy p"
      by (auto simp: truthy_opt_def split: option.splits)
    obtain u w where uw:
      "getIntenalIdForFolder (ctx_env ctx) (folder_id folder) (ctx_connectionId ctx) (rworld st) = (u, w)"
      by (cases "getIntenalIdForFolder (ctx_env ctx) (folder_id folder) (ctx_connectionId ctx) (rworld st)")
    with Cons.prems rc p have
      "processFolders_pass ctx rest pending
         (st\<lparr>parentLookupCache := cache,
             foldersToSync := foldersToSync st @ [createFolderWithInternalIds folder p u],
             folderIdToInternalIdMap := (folderIdToInternalIdMap st)(folder_id folder \<mapsto> u),
             rworld := w\<rparr>) = (pending', st')"
      by simp
    from Cons.IH [OF this] show ?thesis by auto
  qed
qed

lemma processFolders_loop_total:
  assumes "hung_free st"
  shows "\<exists>st'. processFolders_loop ctx schedule remaining st = Some st' \<and>
           set (foldersToSync st) \<subseteq> set (foldersToSync st')"
  using assms
proof (induction ctx schedule remaining st rule: processFolders_loop.induct)
  case (1 ctx schedule remainingFolders st)
  show ?case
  proof (cases "remainingFolders = []")
    case True
    then show ?thesis by (simp add: processFolders_loop.simps)
  next
    case False
    obtain pending st1 where pass:
      "processFolders_pass ctx remainingFolders [] st = (pending, st1)"
      by (cases "processFolders_pass ctx remainingFolders [] st")
    from processFolders_pass_frame [OF pass] "1.prems"
    have hf: "hung_free st1" and mono: "set (foldersToSync st) \<subseteq> set (foldersToSync st1)"
      by (simp_all add: hung_free_def)
    show ?thesis
    proof (cases "isStuckInLoop pending remainingFolders")
      case True
      from handleUnresolvedFolders_total [OF hf, of ctx schedule pending "foldersToSync st1"]
      obtain st' where
        "handleUnresolvedFolders ctx schedule pending (foldersToSync st1) st1 = Some st'"
        "set (foldersToSync st1) \<subseteq> set (foldersToSync st')"
        by blast
      with False pass True mono show ?thesis
        by (subst processFolders_loop.simps) auto
    next
      case stuck: False
      from "1.IH" [OF False pass [symmetric] stuck hf]
      obtain st' where
        "processFolders_loop ctx schedule pending st1 = Some st'"
        "set (foldersToSync st1) \<subseteq> set (foldersToSync st')"
        by blast
      with False pass stuck mono show ?thesis
        by (subst processFolders_loop.simps) auto
    qed
  qed
qed

lemma processFoldersWithParents_total:
  "\<exists>out w'. processFoldersWithParents ctx schedule folders w = Some (Inr out, w')"
proof -
  have "hung_free \<lparr>folderIdToInternalIdMap = Map.empty, parentLookupCache = Map.empty,
              foldersToSync = [], tasks = [], rworld = w\<rparr>"
    by (simp add: hung_free_def)
  from processFolders_loop_total [OF this, of ctx schedule folders] show ?thesis
    by (auto simp: processFoldersWithParents_def)
qed

subsection \<open>Parents that are roots\<close>

lemma resolveParentId_root:
  assumes "idMap parentId = None" "parentId \<in> set driveIds \<or> parentId = ''root''"
  shows "resolveParentId parentId idMap driveIds connectionId cache d = (Some ''root'', cache)"
  using assms by (simp add: resolveParentId_def)

lemma processFolders_pass_root:
  assumes "processFolders_pass ctx remaining pending st = (pending', st')"
    and "i < length remaining"
    and "remote_parent_id (remaining ! i) \<in> set (ctx_driveIds ctx) \<or>
         remote_parent_id (remaining ! i) = ''root''"
    and "folderIdToInternalIdMap st (remote_parent_id (remaining ! i)) = None"
    and "\<forall>j<i. folder_id (remaining ! j) \<noteq> remote_parent_id (remaining ! i)"
  shows "\<exists>x. (remaining ! i)\<lparr>internal_parent_folder_id := None, internal_id := Some x\<rparr>
             \<in> set (foldersToSync st')"
  using assms
proof (induction remaining arbitrary: i pending st)
  case Nil
  then show ?case by simp
next
  case (Cons folder rest)
  show ?case
  proof (cases i)
    case 0
    with Cons.prems have rc:
      "resolveParentId (remote_parent_id folder) (folderIdToInternalIdMap st)
         (ctx_driveIds ctx) (ctx_connectionId ctx) (parentLookupCache st) (db (rworld st)) =
       (Some ''root'', parentLookupCache st)"
      by (intro resolveParentId_root) simp_all
    obtain u w where uw:
      "getIntenalIdForFolder (ctx_env ctx) (folder_id folder) (ctx_connectionId ctx) (rworld st) = (u, w)"
      by (cases "getIntenalIdForFolder (ctx_env ctx) (folder_id folder) (ctx_connectionId ctx) (rworld st)")
    with Cons.prems(1) rc have
      "processFolders_pass ctx rest pending
         (st\<lparr>parentLookupCache := parentLookupCache st,
             foldersToSync := foldersToSync st @ [createFolderWithInternalIds folder ''root'' u],
             folderIdToInternalIdMap := (folderIdToInternalIdMap st)(folder_id folder \<mapsto> u),
             rworld := w\<rparr>) = (pending', st')"
      by (simp add: truthy_def)
    from processFolders_pass_frame [OF this]
    have "createFolderWithInternalIds folder ''root'' u \<in> set (foldersToSync st')"
      by auto
    with 0 show ?thesis
      by (auto simp: createFolderWithInternalIds_def)
  next
    case (Suc k)
    with Cons.prems have k: "k < length rest"
      and root: "remote_parent_id (rest ! k) \<in> set (ctx_driveIds ctx) \<or>
         remote_parent_id (rest ! k) = ''root''"
      and unmapped: "folderIdToInternalIdMap st (remote_parent_id (rest ! k)) = None"
      and head: "folder_id folder \<noteq> remote_parent_id (rest ! k)"
      by auto
    have earlier: "\<forall>j<k. folder_id (rest ! j) \<noteq> remote_parent_id (rest ! k)"
    proof (intro allI impI)
      fix j assume "j < k"
      then have "Suc j < i" using Suc by simp
      with Cons.prems(5) have "folder_id ((folder # rest) ! Suc j) \<noteq>
        remote_parent_id ((folder # rest) ! i)" by blast
      with Suc show "folder_id (rest ! j) \<noteq> remote_parent_id (rest ! k)" by simp
    qed
    obtain r cache where rc:
      "resolveParentId (remote_parent_id folder) (folderIdToInternalIdMap st)
         (ctx_driveIds ctx) (ctx_connectionId ctx) (parentLookupCache st) (db (rworld st)) = (r, cache)"
      by (cases "resolveParentId (remote_parent_id folder) (folderIdToInternalIdMap st)
         (ctx_driveIds ctx) (ctx_connectionId ctx) (parentLookupCache st) (db (rworld st))")
    show ?thesis
    proof (cases "truthy_opt r")
      case False
      with Cons.prems(1) rc have
        "processFolders_pass ctx rest (pending @ [folder]) (st\<lparr>parentLookupCache := cache\<rparr>) =
         (pending', st')"
        by (auto simp: truthy_opt_def split: option.splits if_splits)
      from Cons.IH [OF this k root _ earlier] unmapped Suc show ?thesis by simp
    next
      case True
      then obtain p where p: "r = Some p" "truthy p"
        by (auto simp: truthy_opt_def split: option.splits)
      obtain u w where uw:
        "getIntenalIdForFolder (ctx_env ctx) (folder_id folder) (ctx_connectionId ctx) (rworld st) = (u, w)"
        by (cases "getIntenalIdForFolder (ctx_env ctx) (folder_id folder) (ctx_connectionId ctx) (rworld st)")
      with Cons.prems(1) rc p have
        "processFolders_pass ctx rest pending
           (st\<lparr>parentLookupCache := cache,
               foldersToSync := foldersToSync st @ [createFolderWithInternalIds folder p u],
               folderIdToInternalIdMap := (folderIdToInternalIdMap st)(folder_id folder \<mapsto> u),
               rworld := w\<rparr>) = (pending', st')"
        by simp
      from Cons.IH [OF this k root _ earlier] unmapped head Suc show ?thesis by simp
    qed
  qed
qed

subsection \<open>Single steps\<close>

lemma resolveParentId_mapped:
  "idMap parentId = Some v \<Longrightarrow>
   resolveParentId parentId idMap driveIds connectionId cache d = (Some v, cache)"
  by (simp add: resolveParentId_def)




lemma getInternalParentRecursive_resolved:
  assumes "remote_parent_id folder \<notin> set visitedIds"
    and "resolveParentId (remote_parent_id folder) (folderIdToInternalIdMap st) (ctx_driveIds ctx)
           (ctx_connectionId ctx) (parentLookupCache st) (db (rworld st)) = (r, cache)"
    and "truthy_opt r"
  shows "getInternalParentRecursive ctx remote_folders folder visitedIds st =
         (Resolved r, st\<lparr>parentLookupCache := cache\<rparr>)"
  using assms by (simp add: getInternalParentRecursive_def)

lemma getInternalParentRecursive_fetched:
  assumes "remote_parent_id folder \<notin> set visitedIds"
    and "resolveParentId (remote_parent_id folder) (folderIdToInternalIdMap st) (ctx_driveIds ctx)
           (ctx_connectionId ctx) (parentLookupCache st) (db (rworld st)) = (r, cache)"
    and "\<not> truthy_opt r"
    and "find (\<lambda>f. folder_id f = remote_parent_id folder) (rev remote_folders) = None"
    and "drive_files_get (ctx_env ctx) (remote_parent_id folder) = Inr (Some parentFolder)"
  shows "getInternalParentRecursive ctx remote_folders folder visitedIds st =
         (Walk parentFolder (remote_parent_id folder # visitedIds),
          st\<lparr>parentLookupCache := cache,
             rworld := (rworld st)\<lparr>api_calls := Suc (api_calls (rworld st)),
                         slept := slept (rworld st) @ [RATE_LIMIT_DELAY]\<rparr>\<rparr>)"
  using assms
  by (simp add: getInternalParentRecursive_def Let_def executeWithRetry_remote_call_settles)

lemma getInternalParentRecursive_failed:
  assumes "remote_parent_id folder \<notin> set visitedIds"
    and "resolveParentId (remote_parent_id folder) (folderIdToInternalIdMap st) (ctx_driveIds ctx)
           (ctx_connectionId ctx) (parentLookupCache st) (db (rworld st)) = (r, cache)"
    and "\<not> truthy_opt r"
    and "find (\<lambda>f. folder_id f = remote_parent_id folder) (rev remote_folders) = None"
    and "drive_files_get (ctx_env ctx) (remote_parent_id folder) = Inl e" "\<not> isRateLimitError e"
  shows "getInternalParentRecursive ctx remote_folders folder visitedIds st =
         (Resolved None,
          st\<lparr>parentLookupCache := cache,
             rworld := logger LogError
               (''Failed to resolve parent for folder '' @ folder_id folder)
               ((rworld st)\<lparr>api_calls := Suc (api_calls (rworld st)),
                         slept := slept (rworld st) @ [RATE_LIMIT_DELAY]\<rparr>)\<rparr>)"
  using assms
  by (simp add: getInternalParentRecursive_def Let_def executeWithRetry_remote_call_settles)



lemma step_task_idle:
  assumes "i < length (tasks st) \<longrightarrow> \<not> active (snd (tasks st ! i))"
  shows "step_task ctx remote_folders i st = st"
proof (cases "i < length (tasks st)")
  case False
  then show ?thesis by (simp add: step_task_def)
next
  case True
  with assms have "\<not> active (snd (tasks st ! i))" by simp
  with True show ?thesis
    by (cases "tasks st ! i"; cases "snd (tasks st ! i)") (auto simp: step_task_def)
qed

subsection \<open>One pending folder\<close>

lemma drain_step_single:
  assumes "length (tasks st) \<le> 1"
  shows "drain ctx remote_folders (step_task ctx remote_folders i st) = drain ctx remote_folders st"
proof (cases "i < length (tasks st) \<and> active (snd (tasks st ! i))")
  case False
  then have "step_task ctx remote_folders i st = st"
    by (intro step_task_idle) auto
  then show ?thesis by simp
next
  case True
  with assms have i: "i = 0" and one: "length (tasks st) = 1" by auto
  then obtain ft where ft: "tasks st = [ft]"
    by (cases "tasks st") auto
  with True i have "next_active (tasks st) = Some 0" by simp
  with i show ?thesis by (simp add: drain_unfold_Some)
qed

lemma drain_fold_single:
  assumes "length (tasks st) \<le> 1"
  shows "drain ctx remote_folders (fold (step_task ctx remote_folders) xs st) =
         drain ctx remote_folders st"
  using assms
proof (induction xs arbitrary: st)
  case Nil
  then show ?case by simp
next
  case (Cons x xs)
  then have "drain ctx remote_folders (fold (step_task ctx remote_folders) xs
               (step_task ctx remote_folders x st)) =
             drain ctx remote_folders (step_task ctx remote_folders x st)"
    by (intro Cons.IH) (simp add: step_task_length)
  with Cons.prems show ?case by (simp add: drain_step_single)
qed

lemma handleUnresolvedFolders_single:
  "handleUnresolvedFolders ctx schedule [folder] remote_folders st =
     (let st3 = drain ctx remote_folders
                  (st\<lparr>rworld := logger LogWarn ''Found 1 unresolved folders. Resolving them...''
                                  (rworld st),
                      tasks := [(folder, Walk folder [])]\<rparr>)
      in if list_ex (\<lambda>ft. snd ft = Hung) (tasks st3) then None else Some st3)"
proof -
  let ?st0 = "st\<lparr>rworld := logger LogWarn ''Found 1 unresolved folders. Resolving them...''
                                  (rworld st),
                      tasks := [(folder, Walk folder [])]\<rparr>"
  have "drain ctx remote_folders (fold (step_task ctx remote_folders) schedule
          (fold (step_task ctx remote_folders) [0..<1] ?st0)) =
        drain ctx remote_folders (fold (step_task ctx remote_folders) [0..<1] ?st0)"
    by (intro drain_fold_single) (simp add: step_task_length)
  also have "\<dots> = drain ctx remote_folders ?st0"
    by (intro drain_fold_single) simp
  finally show ?thesis
    by (simp add: handleUnresolvedFolders_def Let_def nat_to_string.simps)
qed

subsection \<open>Evaluating the resolver on concrete batches\<close>

lemmas resolver_eval =
  step_task_def getInternalParentRecursive_def resolveParentId_def findFirst_folder_def
  record_resolved_def uuidv4_def getIntenalIdForFolder_def createFolderWithInternalIds_def
  remote_parent_id_def remote_folder_def truthy_def truthy_opt_def drive_files_get_def
  logger_def isStuckInLoop_def executeWithRetry_remote_call_settles Let_def
  nat_to_string.simps RATE_LIMIT_DELAY_def

text \<open>
  Claim C1 fails on the code. A modified folder \<open>a\<close> whose parent \<open>b\<close> is neither in the
  batch nor in the store is resolved by the fallback; the drive reports that \<open>b\<close> lies
  directly in the shared drive \<open>drive1\<close>. Under every interleaving the walk returns the
  marker \<open>root\<close> it got from \<open>resolveParentId\<close> and \<open>a\<close> is emitted with
  \<open>internal_parent_folder_id = root\<close>, which is the internal id of no folder: the store is
  empty and the only folder of the output has the id \<open>uuid-0\<close>. The pass loop maps the
  marker to \<open>null\<close> (\<open>createFolderWithInternalIds\<close>); the fallback does not.
\<close>

theorem fallback_assigns_root_marker:
  "processFoldersWithParents ctx_b schedule [remote_folder ''a'' (Some [''b''])] world0 =
   Some (Inr [(remote_folder ''a'' (Some [''b'']))
                \<lparr>internal_parent_folder_id := Some ''root'', internal_id := Some ''uuid-0''\<rparr>],
         world0\<lparr>api_calls := 1, slept := [100], uuid_calls := 1,
                logs := [(LogWarn, ''Found 1 unresolved folders. Resolving them...'')]\<rparr>)"
proof -
  let ?A = "remote_folder ''a'' (Some [''b''])"
  let ?B = "remote_folder ''b'' (Some [''drive1''])"
  let ?st1 = "\<lparr>folderIdToInternalIdMap = Map.empty, parentLookupCache = [''b'' \<mapsto> None],
              foldersToSync = [], tasks = [], rworld = world0\<rparr>"
  let ?w1 = "world0\<lparr>logs := [(LogWarn, ''Found 1 unresolved folders. Resolving them...'')]\<rparr>"
  let ?w2 = "?w1\<lparr>api_calls := 1, slept := [100]\<rparr>"
  let ?s0 = "?st1\<lparr>rworld := ?w1, tasks := [(?A, Walk ?A [])]\<rparr>"
  let ?s1 = "?st1\<lparr>rworld := ?w2, tasks := [(?A, Walk ?B [''b''])]\<rparr>"
  let ?s2 = "?st1\<lparr>rworld := ?w2, tasks := [(?A, Resolved (Some ''root''))]\<rparr>"
  let ?s3 = "\<lparr>folderIdToInternalIdMap = [''a'' \<mapsto> ''uuid-0''],
             parentLookupCache = [''b'' \<mapsto> None],
             foldersToSync = [?A\<lparr>internal_parent_folder_id := Some ''root'',
                                 internal_id := Some ''uuid-0''\<rparr>],
             tasks = [(?A, Finished)], rworld = ?w2\<lparr>uuid_calls := 1\<rparr>\<rparr>"
  have pass: "processFolders_pass ctx_b [?A] []
        \<lparr>folderIdToInternalIdMap = Map.empty, parentLookupCache = Map.empty,
         foldersToSync = [], tasks = [], rworld = world0\<rparr> = ([?A], ?st1)"
    by (simp add: resolver_eval ctx_b_def world0_def env0_def)
  have step1: "step_task ctx_b [] 0 ?s0 = ?s1"
    by (simp add: resolver_eval ctx_b_def world0_def env0_def)
  have step2: "step_task ctx_b [] 0 ?s1 = ?s2"
    by (simp add: resolver_eval ctx_b_def world0_def env0_def)
  have step3: "step_task ctx_b [] 0 ?s2 = ?s3"
    by (simp add: resolver_eval ctx_b_def world0_def env0_def)
  have "drain ctx_b [] ?s0 = drain ctx_b [] ?s1"
    using step1 by (subst drain_unfold_Some [of _ 0]) simp_all
  also have "\<dots> = drain ctx_b [] ?s2"
    using step2 by (subst drain_unfold_Some [of _ 0]) simp_all
  also have "\<dots> = drain ctx_b [] ?s3"
    using step3 by (subst drain_unfold_Some [of _ 0]) simp_all
  also have "\<dots> = ?s3"
    by (simp add: drain_unfold_None)
  finally have drained: "drain ctx_b [] ?s0 = ?s3" .
  have "?st1\<lparr>rworld := logger LogWarn ''Found 1 unresolved folders. Resolving them...''
                        (rworld ?st1),
               tasks := [(?A, Walk ?A [])]\<rparr> = ?s0"
    by (simp add: logger_def world0_def)
  then have "handleUnresolvedFolders ctx_b schedule [?A] [] ?st1 =
      (let st3 = drain ctx_b [] ?s0
       in if list_ex (\<lambda>ft. snd ft = Hung) (tasks st3) then None else Some st3)"
    by (simp only: handleUnresolvedFolders_single)
  also have "\<dots> = Some ?s3"
    by (simp only: drained Let_def) simp
  finally have fallback: "handleUnresolvedFolders ctx_b schedule [?A] [] ?st1 = Some ?s3" .
  have "processFolders_loop ctx_b schedule [?A]
        \<lparr>folderIdToInternalIdMap = Map.empty, parentLookupCache = Map.empty,
         foldersToSync = [], tasks = [], rworld = world0\<rparr> =
      handleUnresolvedFolders ctx_b schedule [?A] [] ?st1"
    by (subst processFolders_loop.simps, simp only: pass) (simp add: isStuckInLoop_def)
  with fallback have "processFolders_loop ctx_b schedule [?A]
        \<lparr>folderIdToInternalIdMap = Map.empty, parentLookupCache = Map.empty,
         foldersToSync = [], tasks = [], rworld = world0\<rparr> = Some ?s3"
    by (simp only:)
  then show ?thesis
    by (simp only: processFoldersWithParents_def) (simp add: world0_def)
qed

text \<open>
  Claim C2 fails on the code. The folder \<open>a\<close> is persisted with the internal id \<open>id-a\<close>
  and has been moved below a folder \<open>b\<close> that the batch, the store and the drive do not
  know. Under every interleaving the fallback emits \<open>a\<close> with the fresh id \<open>uuid-0\<close>,
  although \<open>getIntenalIdForFolder\<close>, which the pass loop calls, finds \<open>id-a\<close>.
\<close>

theorem fallback_mints_fresh_id_for_persisted_folder:
  "processFoldersWithParents ctx0 schedule [remote_folder ''a'' (Some [''b''])] world_a =
   Some (Inr [(remote_folder ''a'' (Some [''b'']))
                \<lparr>internal_parent_folder_id := None, internal_id := Some ''uuid-0''\<rparr>],
         world_a\<lparr>api_calls := 1, slept := [100], uuid_calls := 1,
                 logs := [(LogWarn, ''Found 1 unresolved folders. Resolving them...''),
                          (LogError, ''Failed to resolve parent for folder a'')]\<rparr>) \<and>
   getIntenalIdForFolder env0 ''a'' ''c1'' world_a = (''id-a'', world_a)"
proof -
  let ?A = "remote_folder ''a'' (Some [''b''])"
  let ?st1 = "\<lparr>folderIdToInternalIdMap = Map.empty, parentLookupCache = [''b'' \<mapsto> None],
              foldersToSync = [], tasks = [], rworld = world_a\<rparr>"
  let ?w1 = "world_a\<lparr>logs := [(LogWarn, ''Found 1 unresolved folders. Resolving them...'')]\<rparr>"
  let ?w2 = "world_a\<lparr>api_calls := 1, slept := [100],
               logs := [(LogWarn, ''Found 1 unresolved folders. Resolving them...''),
                        (LogError, ''Failed to resolve parent for folder a'')]\<rparr>"
  let ?s0 = "?st1\<lparr>rworld := ?w1, tasks := [(?A, Walk ?A [])]\<rparr>"
  let ?s1 = "?st1\<lparr>rworld := ?w2, tasks := [(?A, Resolved None)]\<rparr>"
  let ?s2 = "\<lparr>folderIdToInternalIdMap = [''a'' \<mapsto> ''uuid-0''],
             parentLookupCache = [''b'' \<mapsto> None],
             foldersToSync = [?A\<lparr>internal_parent_folder_id := None,
                                 internal_id := Some ''uuid-0''\<rparr>],
             tasks = [(?A, Finished)], rworld = ?w2\<lparr>uuid_calls := 1\<rparr>\<rparr>"
  have pass: "processFolders_pass ctx0 [?A] []
        \<lparr>folderIdToInternalIdMap = Map.empty, parentLookupCache = Map.empty,
         foldersToSync = [], tasks = [], rworld = world_a\<rparr> = ([?A], ?st1)"
    by (simp add: resolver_eval ctx0_def world_a_def world0_def env0_def)
  have step1: "step_task ctx0 [] 0 ?s0 = ?s1"
    by (simp add: resolver_eval ctx0_def world_a_def world0_def env0_def)
  have step2: "step_task ctx0 [] 0 ?s1 = ?s2"
    by (simp add: resolver_eval ctx0_def world_a_def world0_def env0_def)
  have "drain ctx0 [] ?s0 = drain ctx0 [] ?s1"
    using step1 by (subst drain_unfold_Some [of _ 0]) simp_all
  also have "\<dots> = drain ctx0 [] ?s2"
    using step2 by (subst drain_unfold_Some [of _ 0]) simp_all
  also have "\<dots> = ?s2"
    by (simp add: drain_unfold_None)
  finally have drained: "drain ctx0 [] ?s0 = ?s2" .
  have "?st1\<lparr>rworld := logger LogWarn ''Found 1 unresolved folders. Resolving them...''
                        (rworld ?st1),
               tasks := [(?A, Walk ?A [])]\<rparr> = ?s0"
    by (simp add: logger_def world_a_def world0_def)
  then have "handleUnresolvedFolders ctx0 schedule [?A] [] ?st1 =
      (let st3 = drain ctx0 [] ?s0
       in if list_ex (\<lambda>ft. snd ft = Hung) (tasks st3) then None else Some st3)"
    by (simp only: handleUnresolvedFolders_single)
  also have "\<dots> = Some ?s2"
    by (simp only: drained Let_def) simp
  finally have fallback: "handleUnresolvedFolders ctx0 schedule [?A] [] ?st1 = Some ?s2" .
  have "processFolders_loop ctx0 schedule [?A]
        \<lparr>folderIdToInternalIdMap = Map.empty, parentLookupCache = Map.empty,
         foldersToSync = [], tasks = [], rworld = world_a\<rparr> =
      handleUnresolvedFolders ctx0 schedule [?A] [] ?st1"
    by (subst processFolders_loop.simps, simp only: pass) (simp add: isStuckInLoop_def)
  with fallback have "processFolders_loop ctx0 schedule [?A]
        \<lparr>folderIdToInternalIdMap = Map.empty, parentLookupCache = Map.empty,
         foldersToSync = [], tasks = [], rworld = world_a\<rparr> = Some ?s2"
    by (simp only:)
  then have "processFoldersWithParents ctx0 schedule [?A] world_a =
      Some (Inr [?A\<lparr>internal_parent_folder_id := None, internal_id := Some ''uuid-0''\<rparr>],
            world_a\<lparr>api_calls := 1, slept := [100], uuid_calls := 1,
                 logs := [(LogWarn, ''Found 1 unresolved folders. Resolving them...''),
                          (LogError, ''Failed to resolve parent for folder a'')]\<rparr>)"
    by (simp only: processFoldersWithParents_def) (simp add: world_a_def world0_def)
  moreover have "getIntenalIdForFolder env0 ''a'' ''c1'' world_a = (''id-a'', world_a)"
    by (simp add: getIntenalIdForFolder_def findFirst_folder_def world_a_def truthy_def)
  ultimately show ?thesis by (simp only:)
qed

subsection \<open>Parents that are drives or the root\<close>

text \<open>
  Claim C3, as amended. If the remote parent of a folder of the batch is a drive id or
  \<open>root\<close>, and no folder that precedes it in the batch has that id, then resolution
  returns and its output holds the folder with \<open>internal_parent_folder_id = null\<close>,
  whatever the rest of the batch, the store, the drive and the interleaving of the
  fallback walks are.
\<close>

theorem root_parent_resolves_to_null:
  "i < length folders \<and>
   (remote_parent_id (folders ! i) \<in> set (ctx_driveIds ctx) \<or>
    remote_parent_id (folders ! i) = ''root'') \<and>
   (\<forall>j<i. folder_id (folders ! j) \<noteq> remote_parent_id (folders ! i)) \<longrightarrow>
   (\<exists>out w' x. processFoldersWithParents ctx schedule folders w = Some (Inr out, w') \<and>
      (folders ! i)\<lparr>internal_parent_folder_id := None, internal_id := Some x\<rparr> \<in> set out)"
proof (intro impI)
  assume a: "i < length folders \<and>
   (remote_parent_id (folders ! i) \<in> set (ctx_driveIds ctx) \<or>
    remote_parent_id (folders ! i) = ''root'') \<and>
   (\<forall>j<i. folder_id (folders ! j) \<noteq> remote_parent_id (folders ! i))"
  let ?st0 = "\<lparr>folderIdToInternalIdMap = Map.empty, parentLookupCache = Map.empty,
              foldersToSync = [], tasks = [], rworld = w\<rparr>"
  obtain pending st1 where pass: "processFolders_pass ctx folders [] ?st0 = (pending, st1)"
    by (cases "processFolders_pass ctx folders [] ?st0")
  from a obtain x where x:
    "(folders ! i)\<lparr>internal_parent_folder_id := None, internal_id := Some x\<rparr>
       \<in> set (foldersToSync st1)"
    using processFolders_pass_root [OF pass, of i] by auto
  from processFolders_pass_frame [OF pass] have hf: "hung_free st1"
    by (simp add: hung_free_def)
  from a have ne: "folders \<noteq> []" by auto
  have "\<exists>st'. processFolders_loop ctx schedule folders ?st0 = Some st' \<and>
          set (foldersToSync st1) \<subseteq> set (foldersToSync st')"
  proof (cases "isStuckInLoop pending folders")
    case True
    with ne pass handleUnresolvedFolders_total [OF hf, of ctx schedule pending "foldersToSync st1"]
    show ?thesis
      by (subst processFolders_loop.simps) (simp only: pass, simp)
  next
    case False
    with ne pass processFolders_loop_total [OF hf, of ctx schedule pending]
    show ?thesis
      by (subst processFolders_loop.simps) (simp only: pass, simp)
  qed
  then obtain st' where st': "processFolders_loop ctx schedule folders ?st0 = Some st'"
    "set (foldersToSync st1) \<subseteq> set (foldersToSync st')"
    by blast
  from x st'(2) have
    "(folders ! i)\<lparr>internal_parent_folder_id := None, internal_id := Some x\<rparr>
       \<in> set (foldersToSync st')"
    by blast
  moreover have "processFoldersWithParents ctx schedule folders w =
      Some (Inr (foldersToSync st'), rworld st')"
    by (simp only: processFoldersWithParents_def st'(1)) simp
  ultimately show "\<exists>out w' x. processFoldersWithParents ctx schedule folders w = Some (Inr out, w') \<and>
      (folders ! i)\<lparr>internal_parent_folder_id := None, internal_id := Some x\<rparr> \<in> set out"
    by blast
qed

theorem root_parent_resolves_to_null_witness:
  "\<exists>out w' x. processFoldersWithParents ctx0 [] [remote_folder ''y'' None,
        remote_folder ''x'' (Some [''drive1''])] world0 = Some (Inr out, w') \<and>
      (remote_folder ''x'' (Some [''drive1'']))
        \<lparr>internal_parent_folder_id := None, internal_id := Some x\<rparr> \<in> set out"
  using root_parent_resolves_to_null [of 1
      "[remote_folder ''y'' None, remote_folder ''x'' (Some [''drive1''])]" ctx0 "[]" world0]
  by (simp add: remote_parent_id_def remote_folder_def ctx0_def truthy_def)

text \<open>
  The claim as stated fails when the batch holds, before the folder, a folder whose id is
  the drive id itself: \<open>resolveParentId\<close> consults the map of the folders resolved in this
  run before it tests for a drive id, so \<open>x\<close> gets the internal id of that folder as
  parent.
\<close>

theorem root_parent_shadowed_counterexample:
  "processFoldersWithParents ctx0 []
     [remote_folder ''drive1'' None, remote_folder ''x'' (Some [''drive1''])] world0 =
   Some (Inr [(remote_folder ''drive1'' None)
                \<lparr>internal_id := Some ''uuid-0'', internal_parent_folder_id := None\<rparr>,
              (remote_folder ''x'' (Some [''drive1'']))
                \<lparr>internal_id := Some ''uuid-1'', internal_parent_folder_id := Some ''uuid-0''\<rparr>],
         world0\<lparr>uuid_calls := 2\<rparr>) \<and>
   remote_parent_id (remote_folder ''x'' (Some [''drive1''])) \<in> set (ctx_driveIds ctx0)"
  by code_simp

subsection \<open>A cycle of two folders\<close>



lemma walk_inv_tasks [simp]: "walk_inv X X' Y' t (st\<lparr>tasks := ts\<rparr>) = walk_inv X X' Y' t st"
  by (simp add: walk_inv_def)






section \<open>Properties of the sync entry point\<close>

subsection \<open>The order of a full scan\<close>

lemma fetchFoldersForParent_single_page:
  assumes "files_list env \<lparr>request_q = buildQuery parentId driveId, request_pageToken = None,
             request_driveId = (if driveId \<noteq> ''root'' then Some driveId else None)\<rparr> =
           Inr \<lparr>files = Some xs, nextPageToken = None\<rparr>"
  shows "fetchFoldersForParent env rootDriveId parentId driveId w =
         Some (Inr (map (default_driveId rootDriveId) xs),
               w\<lparr>api_calls := Suc (api_calls w), slept := slept w @ [RATE_LIMIT_DELAY]\<rparr>)"
  using assms
  by (simp add: fetchFoldersForParent_def fetchFoldersForParent_pages.simps
      executeWithRetry_remote_call_settles truthy_opt_def push_files_def)

text \<open>
  When the listings arrive in the order in which they were requested, the scan emits the
  folders level by level; when the listing of \<open>q1\<close> overtakes that of \<open>p2\<close>, \<open>r1\<close> is
  emitted, and given its id, before \<open>q2\<close>.
\<close>

lemma populateFolders_level_order:
  "map_option (map_sum id (map (\<lambda>f. (folder_id f, internal_id f, internal_parent_folder_id f))) \<circ> fst)
     (populateFolders_drives 6 [] tree_env ''r'' [''d''] [] world0) =
   Some (Inr [(''p1'', Some ''uuid-0'', None), (''p2'', Some ''uuid-1'', None),
              (''q1'', Some ''uuid-2'', Some ''uuid-0''), (''q2'', Some ''uuid-3'', Some ''uuid-1''),
              (''r1'', Some ''uuid-4'', Some ''uuid-2'')])"
  by (simp add: populateFolders_def fetchFoldersForParent_single_page tree_env_def env0_def
      buildQuery_def truthy_def Let_def uuidv4_def remote_folder_def default_driveId_def
      truthy_opt_def world0_def nat_to_string.simps eval_nat_numeral)

lemma populateFolders_overtaking:
  "map_option (map_sum id (map (\<lambda>f. (folder_id f, internal_id f, internal_parent_folder_id f))) \<circ> fst)
     (populateFolders_drives 6 [0, 1, 3] tree_env ''r'' [''d''] [] world0) =
   Some (Inr [(''p1'', Some ''uuid-0'', None), (''p2'', Some ''uuid-1'', None),
              (''q1'', Some ''uuid-2'', Some ''uuid-0''), (''r1'', Some ''uuid-3'', Some ''uuid-2''),
              (''q2'', Some ''uuid-4'', Some ''uuid-1'')])"
  by (simp add: populateFolders_def fetchFoldersForParent_single_page tree_env_def env0_def
      buildQuery_def truthy_def Let_def uuidv4_def remote_folder_def default_driveId_def
      truthy_opt_def world0_def nat_to_string.simps eval_nat_numeral)

subsection \<open>A sync without a connection\<close>

text \<open>
  Claim C10. When no connection of the linked user is a Google Drive file-storage
  connection, \<open>sync\<close> answers with status 404 and no folders, and the world is the one
  it started in: no request was issued to the provider, nothing was written to the store,
  nothing was logged.
\<close>

theorem sync_without_connection:
  "find (\<lambda>c. id_linked_user c = linkedUserId data \<and> provider_slug c = ''googledrive'' \<and>
              vertical c = ''filestorage'') (connections (db w)) = None \<longrightarrow>
   sync fuel schedule env data w =
     Some (Inr \<lparr>response_data = [], response_message = ''Connection not found'',
                statusCode = 404\<rparr>, w)"
  by (simp add: sync_def)

theorem sync_without_connection_witness:
  "sync 5 [] env0 \<lparr>linkedUserId = ''user-1''\<rparr>
     (world0\<lparr>db := \<lparr>connections =
         [\<lparr>id_connection = ''c9'', id_linked_user = ''user-1'', provider_slug = ''onedrive'',
           vertical = ''filestorage'', access_token = ''t''\<rparr>],
         fs_folders = [], fs_permissions = []\<rparr>\<rparr>) =
   Some (Inr \<lparr>response_data = [], response_message = ''Connection not found'',
              statusCode = 404\<rparr>,
         world0\<lparr>db := \<lparr>connections =
         [\<lparr>id_connection = ''c9'', id_linked_user = ''user-1'', provider_slug = ''onedrive'',
           vertical = ''filestorage'', access_token = ''t''\<rparr>],
         fs_folders = [], fs_permissions = []\<rparr>\<rparr>)"
  using sync_without_connection [of "\<lparr>linkedUserId = ''user-1''\<rparr>"
      "world0\<lparr>db := \<lparr>connections =
         [\<lparr>id_connection = ''c9'', id_linked_user = ''user-1'', provider_slug = ''onedrive'',
           vertical = ''filestorage'', access_token = ''t''\<rparr>],
         fs_folders = [], fs_permissions = []\<rparr>\<rparr>" 5 "[]" env0]
  by simp

section \<open>Properties of the stage mapper\<close>

lemma find_snoc:
  "find P (xs @ [x]) = (case find P xs of Some y \<Rightarrow> Some y | None \<Rightarrow> if P x then Some x else None)"
  by (induction xs) auto

lemma find_rev_last_occurrence:
  assumes "i < length xs" "\<forall>j. i < j \<and> j < length xs \<longrightarrow> \<not> P (xs ! j)" "P (xs ! i)"
  shows "find P (rev xs) = Some (xs ! i)"
  using assms
proof (induction xs arbitrary: i rule: rev_induct)
  case Nil
  then show ?case by simp
next
  case (snoc x xs)
  show ?case
  proof (cases "i = length xs")
    case True
    with snoc.prems show ?thesis by simp
  next
    case False
    with snoc.prems have i: "i < length xs" by simp
    from snoc.prems(2) i have nx: "\<not> P x"
      by (auto dest: spec [where x = "length xs"])
    have "\<forall>j. i < j \<and> j < length xs \<longrightarrow> \<not> P (xs ! j)"
    proof (intro allI impI)
      fix j assume j: "i < j \<and> j < length xs"
      then have "\<not> P ((xs @ [x]) ! j)"
        using snoc.prems(2) by (auto dest: spec [where x = j])
      with j show "\<not> P (xs ! j)" by (simp add: nth_append)
    qed
    moreover have "P (xs ! i)"
      using snoc.prems(3) i by (simp add: nth_append)
    ultimately have "find P (rev xs) = Some (xs ! i)"
      using i by (intro snoc.IH)
    with nx i show ?thesis by (simp add: nth_append)
  qed
qed

text \<open>
  While the prototype is \<open>Object.prototype\<close>, an assignment to any name but \<open>__proto__\<close>
  creates or overwrites the own property of that name.
\<close>

lemma set_property_plain:
  assumes "prototype fm = ObjectPrototype" "k \<noteq> ''__proto__''"
  shows "set_property fm k v = Inr (fm\<lparr>own_properties := (own_properties fm)(k \<mapsto> v)\<rparr>)"
  using assms by (simp add: set_property_def object_prototype_set_def)

lemma assign_field_mappings_plain:
  assumes "\<forall>m \<in> set mappings. slug m \<noteq> ''__proto__''" "prototype fm = ObjectPrototype"
  shows "assign_field_mappings stage mappings fm =
         Inr (fm\<lparr>own_properties :=
                (\<lambda>s. case find (\<lambda>m. slug m = s) (rev mappings) of
                        Some m \<Rightarrow> Some (stage_get stage (mapping_remote_id m))
                      | None \<Rightarrow> own_properties fm s)\<rparr>)"
  using assms
proof (induction mappings arbitrary: fm)
  case Nil
  then show ?case by simp
next
  case (Cons mapping rest)
  let ?fm' = "fm\<lparr>own_properties :=
      (own_properties fm)(slug mapping \<mapsto> stage_get stage (mapping_remote_id mapping))\<rparr>"
  from Cons.prems have step:
    "set_property fm (slug mapping) (stage_get stage (mapping_remote_id mapping)) = Inr ?fm'"
    by (intro set_property_plain) simp_all
  from Cons.prems have rest: "\<forall>m \<in> set rest. slug m \<noteq> ''__proto__''"
    and proto: "prototype ?fm' = ObjectPrototype"
    by simp_all
  have same: "(\<lambda>s. case find (\<lambda>m. slug m = s) (rev rest) of
                   Some m \<Rightarrow> Some (stage_get stage (mapping_remote_id m))
                 | None \<Rightarrow> own_properties ?fm' s) =
        (\<lambda>s. case find (\<lambda>m. slug m = s) (rev (mapping # rest)) of
                   Some m \<Rightarrow> Some (stage_get stage (mapping_remote_id m))
                 | None \<Rightarrow> own_properties fm s)"
    by (rule ext) (simp add: find_snoc split: option.splits)
  have "assign_field_mappings stage (mapping # rest) fm = assign_field_mappings stage rest ?fm'"
    by (simp add: step)
  also have "\<dots> = Inr (?fm'\<lparr>own_properties :=
                (\<lambda>s. case find (\<lambda>m. slug m = s) (rev rest) of
                        Some m \<Rightarrow> Some (stage_get stage (mapping_remote_id m))
                      | None \<Rightarrow> own_properties ?fm' s)\<rparr>)"
    by (rule Cons.IH [OF rest proto])
  also have "\<dots> = Inr (fm\<lparr>own_properties :=
                (\<lambda>s. case find (\<lambda>m. slug m = s) (rev (mapping # rest)) of
                        Some m \<Rightarrow> Some (stage_get stage (mapping_remote_id m))
                      | None \<Rightarrow> own_properties fm s)\<rparr>)"
    by (simp only: same) simp
  finally show ?case .
qed

lemma mapSingleStageToUnified_plain:
  assumes "\<forall>m \<in> set mappings. slug m \<noteq> ''__proto__''"
    and "js_String (stage_get stage ''id'') = Inr rid"
  shows "mapSingleStageToUnified stage connectionId (Some mappings) =
         Inr \<lparr>stage_remote_id = rid, remote_data = stage,
              stage_name = stage_get stage ''name'',
              field_mappings =
                \<lparr>own_properties =
                   (\<lambda>s. case find (\<lambda>m. slug m = s) (rev mappings) of
                           Some m \<Rightarrow> Some (stage_get stage (mapping_remote_id m))
                         | None \<Rightarrow> None),
                 prototype = ObjectPrototype\<rparr>\<rparr>"
proof -
  have "assign_field_mappings stage mappings empty_object =
        Inr \<lparr>own_properties =
               (\<lambda>s. case find (\<lambda>m. slug m = s) (rev mappings) of
                       Some m \<Rightarrow> Some (stage_get stage (mapping_remote_id m))
                     | None \<Rightarrow> None),
             prototype = ObjectPrototype\<rparr>"
    using assign_field_mappings_plain [OF assms(1), of empty_object stage]
    by (simp add: empty_object_def cong: option.case_cong)
  with assms(2) show ?thesis
    by (simp add: mapSingleStageToUnified_def)
qed

text \<open>
  Claim C9, as amended. Let no pair of the mapping list have the slug \<open>__proto__\<close>, and
  let the record's \<open>id\<close> be convertible to a string. Then the mapper returns, the
  prototype of \<open>field_mappings\<close> is still \<open>Object.prototype\<close>, and for every slug
  \<open>field_mappings\<close> has an own property of that name exactly when some pair names the
  slug; its value is what reading, on the record, the attribute of the last such pair
  gives. Hence a pair whose slug is not repeated later in the list is copied; in
  particular the mapping \<open>priority \<mapsto> p_level\<close> applied to a record with
  \<open>p_level = high\<close> yields \<open>field_mappings[priority] = high\<close>.
\<close>

theorem mapSingleStageToUnified_last_mapping_wins:
  "((\<forall>m \<in> set mappings. slug m \<noteq> ''__proto__'') \<and>
    js_String (stage_get stage ''id'') = Inr rid \<longrightarrow>
    (\<exists>u. mapSingleStageToUnified stage connectionId (Some mappings) = Inr u \<and>
       prototype (field_mappings u) = ObjectPrototype \<and>
       (\<forall>s. own_properties (field_mappings u) s =
          (case find (\<lambda>m. slug m = s) (rev mappings) of
             Some m \<Rightarrow> Some (stage_get stage (mapping_remote_id m))
           | None \<Rightarrow> None)) \<and>
       (\<forall>i. i < length mappings \<and>
          (\<forall>j. i < j \<and> j < length mappings \<longrightarrow> slug (mappings ! j) \<noteq> slug (mappings ! i)) \<longrightarrow>
          own_properties (field_mappings u) (slug (mappings ! i)) =
            Some (stage_get stage (mapping_remote_id (mappings ! i)))))) \<and>
   (map_of stage ''p_level'' = Some (JString ''high'') \<and>
    js_String (stage_get stage ''id'') = Inr rid \<longrightarrow>
    (\<exists>u. mapSingleStageToUnified stage connectionId
            (Some [\<lparr>slug = ''priority'', mapping_remote_id = ''p_level''\<rparr>]) = Inr u \<and>
       own_properties (field_mappings u) ''priority'' = Some (Json (JString ''high''))))"
proof (intro conjI impI)
  assume a: "(\<forall>m \<in> set mappings. slug m \<noteq> ''__proto__'') \<and>
    js_String (stage_get stage ''id'') = Inr rid"
  let ?own = "\<lambda>s. case find (\<lambda>m. slug m = s) (rev mappings) of
                   Some m \<Rightarrow> Some (stage_get stage (mapping_remote_id m))
                 | None \<Rightarrow> None"
  let ?u = "\<lparr>stage_remote_id = rid, remote_data = stage, stage_name = stage_get stage ''name'',
             field_mappings = \<lparr>own_properties = ?own, prototype = ObjectPrototype\<rparr>\<rparr>"
  from a have u: "mapSingleStageToUnified stage connectionId (Some mappings) = Inr ?u"
    by (intro mapSingleStageToUnified_plain) simp_all
  have last: "\<forall>i. i < length mappings \<and>
          (\<forall>j. i < j \<and> j < length mappings \<longrightarrow> slug (mappings ! j) \<noteq> slug (mappings ! i)) \<longrightarrow>
          ?own (slug (mappings ! i)) = Some (stage_get stage (mapping_remote_id (mappings ! i)))"
  proof (intro allI impI)
    fix i
    assume i: "i < length mappings \<and>
          (\<forall>j. i < j \<and> j < length mappings \<longrightarrow> slug (mappings ! j) \<noteq> slug (mappings ! i))"
    then have "find (\<lambda>m. slug m = slug (mappings ! i)) (rev mappings) = Some (mappings ! i)"
      by (intro find_rev_last_occurrence) auto
    then show "?own (slug (mappings ! i)) =
        Some (stage_get stage (mapping_remote_id (mappings ! i)))"
      by simp
  qed
  show "\<exists>u. mapSingleStageToUnified stage connectionId (Some mappings) = Inr u \<and>
       prototype (field_mappings u) = ObjectPrototype \<and>
       (\<forall>s. own_properties (field_mappings u) s =
          (case find (\<lambda>m. slug m = s) (rev mappings) of
             Some m \<Rightarrow> Some (stage_get stage (mapping_remote_id m))
           | None \<Rightarrow> None)) \<and>
       (\<forall>i. i < length mappings \<and>
          (\<forall>j. i < j \<and> j < length mappings \<longrightarrow> slug (mappings ! j) \<noteq> slug (mappings ! i)) \<longrightarrow>
          own_properties (field_mappings u) (slug (mappings ! i)) =
            Some (stage_get stage (mapping_remote_id (mappings ! i))))"
  proof (intro exI conjI)
    show "mapSingleStageToUnified stage connectionId (Some mappings) = Inr ?u" by (rule u)
    show "prototype (field_mappings ?u) = ObjectPrototype" by simp
    show "\<forall>s. own_properties (field_mappings ?u) s = ?own s" by simp
    from last show "\<forall>i. i < length mappings \<and>
          (\<forall>j. i < j \<and> j < length mappings \<longrightarrow> slug (mappings ! j) \<noteq> slug (mappings ! i)) \<longrightarrow>
          own_properties (field_mappings ?u) (slug (mappings ! i)) =
            Some (stage_get stage (mapping_remote_id (mappings ! i)))"
      by simp
  qed
next
  assume a: "map_of stage ''p_level'' = Some (JString ''high'') \<and>
    js_String (stage_get stage ''id'') = Inr rid"
  then have "mapSingleStageToUnified stage connectionId
            (Some [\<lparr>slug = ''priority'', mapping_remote_id = ''p_level''\<rparr>]) =
      Inr \<lparr>stage_remote_id = rid, remote_data = stage, stage_name = stage_get stage ''name'',
           field_mappings =
             \<lparr>own_properties =
                (\<lambda>s. case find (\<lambda>m. slug m = s)
                             (rev [\<lparr>slug = ''priority'', mapping_remote_id = ''p_level''\<rparr>]) of
                        Some m \<Rightarrow> Some (stage_get stage (mapping_remote_id m))
                      | None \<Rightarrow> None),
              prototype = ObjectPrototype\<rparr>\<rparr>"
    by (intro mapSingleStageToUnified_plain) simp_all
  with a show "\<exists>u. mapSingleStageToUnified stage connectionId
            (Some [\<lparr>slug = ''priority'', mapping_remote_id = ''p_level''\<rparr>]) = Inr u \<and>
       own_properties (field_mappings u) ''priority'' = Some (Json (JString ''high''))"
    by (simp add: stage_get_def)
qed

theorem mapSingleStageToUnified_last_mapping_wins_witness:
  "\<exists>u. mapSingleStageToUnified [(''id'', JNumber ''7''), (''p_level'', JString ''high'')] ''c1''
         (Some [\<lparr>slug = ''priority'', mapping_remote_id = ''p_level''\<rparr>,
                \<lparr>slug = ''ident'', mapping_remote_id = ''id''\<rparr>,
                \<lparr>slug = ''constructor'', mapping_remote_id = ''missing''\<rparr>,
                \<lparr>slug = ''maker'', mapping_remote_id = ''constructor''\<rparr>,
                \<lparr>slug = ''parent'', mapping_remote_id = ''__proto__''\<rparr>]) = Inr u \<and>
       prototype (field_mappings u) = ObjectPrototype \<and>
       own_properties (field_mappings u) ''priority'' = Some (Json (JString ''high'')) \<and>
       own_properties (field_mappings u) ''ident'' = Some (Json (JNumber ''7'')) \<and>
       own_properties (field_mappings u) ''constructor'' = Some Undefined \<and>
       own_properties (field_mappings u) ''maker'' = Some (ObjectPrototypeFunction ''constructor'') \<and>
       own_properties (field_mappings u) ''parent'' = Some ObjectPrototype \<and>
       own_properties (field_mappings u) ''toString'' = None"
proof -
  let ?stage = "[(''id'', JNumber ''7''), (''p_level'', JString ''high'')]"
  let ?mappings = "[\<lparr>slug = ''priority'', mapping_remote_id = ''p_level''\<rparr>,
                    \<lparr>slug = ''ident'', mapping_remote_id = ''id''\<rparr>,
                    \<lparr>slug = ''constructor'', mapping_remote_id = ''missing''\<rparr>,
                    \<lparr>slug = ''maker'', mapping_remote_id = ''constructor''\<rparr>,
                    \<lparr>slug = ''parent'', mapping_remote_id = ''__proto__''\<rparr>]"
  have hyp: "(\<forall>m \<in> set ?mappings. slug m \<noteq> ''__proto__'') \<and>
    js_String (stage_get ?stage ''id'') = Inr ''7''"
    by (simp add: stage_get_def)
  from mapSingleStageToUnified_last_mapping_wins
         [where mappings = ?mappings and stage = ?stage and rid = "''7''" and connectionId = "''c1''",
          THEN conjunct1, rule_format, OF hyp]
  obtain u where u: "mapSingleStageToUnified ?stage ''c1'' (Some ?mappings) = Inr u"
    "prototype (field_mappings u) = ObjectPrototype"
    "\<forall>s. own_properties (field_mappings u) s =
          (case find (\<lambda>m. slug m = s) (rev ?mappings) of
             Some m \<Rightarrow> Some (stage_get ?stage (mapping_remote_id m))
           | None \<Rightarrow> None)"
    by blast
  from u(3) have "own_properties (field_mappings u) ''priority'' = Some (Json (JString ''high''))"
    "own_properties (field_mappings u) ''ident'' = Some (Json (JNumber ''7''))"
    "own_properties (field_mappings u) ''constructor'' = Some Undefined"
    "own_properties (field_mappings u) ''maker'' = Some (ObjectPrototypeFunction ''constructor'')"
    "own_properties (field_mappings u) ''parent'' = Some ObjectPrototype"
    "own_properties (field_mappings u) ''toString'' = None"
    by (simp_all add: stage_get_def object_prototype_functions_def)
  with u(1,2) show ?thesis by blast
qed

text \<open>
  The claim as stated fails when two pairs share a slug: the value copied for the first
  pair is overwritten by the second. It also fails for the slug \<open>__proto__\<close>: the
  assignment runs the setter that \<open>field_mappings\<close> inherits, which ignores a string, so
  nothing is stored and a read of \<open>field_mappings[__proto__]\<close> gives \<open>Object.prototype\<close>.
\<close>

theorem mapSingleStageToUnified_duplicate_slug_counterexample:
  "mapSingleStageToUnified
     [(''id'', JNumber ''7''), (''p_level'', JString ''high''), (''urgency'', JString ''low'')] ''c1''
     (Some [\<lparr>slug = ''priority'', mapping_remote_id = ''p_level''\<rparr>,
            \<lparr>slug = ''priority'', mapping_remote_id = ''urgency''\<rparr>]) =
   Inr \<lparr>stage_remote_id = ''7'',
        remote_data =
          [(''id'', JNumber ''7''), (''p_level'', JString ''high''), (''urgency'', JString ''low'')],
        stage_name = Undefined,
        field_mappings =
          \<lparr>own_properties = [''priority'' \<mapsto> Json (JString ''low'')],
           prototype = ObjectPrototype\<rparr>\<rparr> \<and>
   stage_get [(''id'', JNumber ''7''), (''p_level'', JString ''high''), (''urgency'', JString ''low'')]
     ''p_level'' = Json (JString ''high'') \<and>
   mapSingleStageToUnified [(''id'', JNumber ''7''), (''p_level'', JString ''high'')] ''c1''
     (Some [\<lparr>slug = ''__proto__'', mapping_remote_id = ''p_level''\<rparr>]) =
   Inr \<lparr>stage_remote_id = ''7'',
        remote_data = [(''id'', JNumber ''7''), (''p_level'', JString ''high'')],
        stage_name = Undefined,
        field_mappings = \<lparr>own_properties = Map.empty, prototype = ObjectPrototype\<rparr>\<rparr>"
  by (simp add: mapSingleStageToUnified_def empty_object_def set_property_def stage_get_def
      object_prototype_set_def object_prototype_functions_def)

text \<open>
  Once a pair with the slug \<open>__proto__\<close> has installed an object of the record as the
  prototype, later assignments still create own properties; installing \<open>null\<close> removes
  the inherited setter, so that a second such pair creates an own property named
  \<open>__proto__\<close>; and with a function installed, an assignment to \<open>name\<close> throws.
\<close>

lemma mapSingleStageToUnified_prototype_replaced:
  "mapSingleStageToUnified
     [(''id'', JNumber ''7''), (''owner'', JObject [(''name'', JString ''ann'')]), (''gone'', JNull)]
     ''c1''
     (Some [\<lparr>slug = ''__proto__'', mapping_remote_id = ''owner''\<rparr>,
            \<lparr>slug = ''name'', mapping_remote_id = ''id''\<rparr>]) =
   Inr \<lparr>stage_remote_id = ''7'',
        remote_data =
          [(''id'', JNumber ''7''), (''owner'', JObject [(''name'', JString ''ann'')]), (''gone'', JNull)],
        stage_name = Undefined,
        field_mappings =
          \<lparr>own_properties = [''name'' \<mapsto> Json (JNumber ''7'')],
           prototype = Json (JObject [(''name'', JString ''ann'')])\<rparr>\<rparr> \<and>
   mapSingleStageToUnified
     [(''id'', JNumber ''7''), (''owner'', JObject [(''name'', JString ''ann'')]), (''gone'', JNull)]
     ''c1''
     (Some [\<lparr>slug = ''__proto__'', mapping_remote_id = ''gone''\<rparr>,
            \<lparr>slug = ''__proto__'', mapping_remote_id = ''id''\<rparr>]) =
   Inr \<lparr>stage_remote_id = ''7'',
        remote_data =
          [(''id'', JNumber ''7''), (''owner'', JObject [(''name'', JString ''ann'')]), (''gone'', JNull)],
        stage_name = Undefined,
        field_mappings =
          \<lparr>own_properties = [''__proto__'' \<mapsto> Json (JNumber ''7'')],
           prototype = Json JNull\<rparr>\<rparr> \<and>
   mapSingleStageToUnified [(''id'', JNumber ''7'')] ''c1''
     (Some [\<lparr>slug = ''__proto__'', mapping_remote_id = ''constructor''\<rparr>,
            \<lparr>slug = ''name'', mapping_remote_id = ''id''\<rparr>]) = Inl TypeError"
  by (simp add: mapSingleStageToUnified_def empty_object_def set_property_def stage_get_def
      object_prototype_set_def object_prototype_functions_def)

text \<open>\<open>String(stage.id)\<close> for ids that are not numbers.\<close>

lemma js_String_examples:
  "js_String (stage_get [(''name'', JString ''won'')] ''id'') = Inr ''undefined''"
  "js_String (Json (JArray [JNumber ''1'', JNull, JArray [JString ''a'', JBool True], JObject []])) =
     Inr ''1,,a,true,[object Object]''"
  "js_String (Json (JObject [(''toString'', JNumber ''1'')])) = Inl TypeError"
  "mapSingleStageToUnified [(''id'', JArray [JObject [(''toString'', JNull)]])] ''c1'' None =
     Inl TypeError"
  by (simp_all add: stage_get_def object_prototype_functions_def mapSingleStageToUnified_def)

end
